theory Spec2Isabelle
  imports Complex_Main "HOL-Library.AList"
begin

section \<open>Data model of \<open>app/models/queue.py\<close>\<close>

text \<open>
  The two string enums of the module. \<open>status_value\<close> and \<open>priority_value\<close> are the
  enum members' \<open>.value\<close>; \<open>RequestStatus_of\<close> and \<open>Priority_of\<close> are the enum
  constructors called on a string, which raise \<open>ValueError\<close> (here \<open>None\<close>) on an
  unknown label.
\<close>

datatype RequestStatus = QUEUED | PROCESSING | COMPLETED | FAILED | TIMEOUT | CANCELLED

datatype Priority = LOW | NORMAL | HIGH

fun status_value :: "RequestStatus \<Rightarrow> string" where
  "status_value QUEUED = ''queued''"
| "status_value PROCESSING = ''processing''"
| "status_value COMPLETED = ''completed''"
| "status_value FAILED = ''failed''"
| "status_value TIMEOUT = ''timeout''"
| "status_value CANCELLED = ''cancelled''"

fun priority_value :: "Priority \<Rightarrow> string" where
  "priority_value LOW = ''low''"
| "priority_value NORMAL = ''normal''"
| "priority_value HIGH = ''high''"

definition RequestStatus_of :: "string \<Rightarrow> RequestStatus option" where
  "RequestStatus_of s =
     (if s = ''queued'' then Some QUEUED
      else if s = ''processing'' then Some PROCESSING
      else if s = ''completed'' then Some COMPLETED
      else if s = ''failed'' then Some FAILED
      else if s = ''timeout'' then Some TIMEOUT
      else if s = ''cancelled'' then Some CANCELLED
      else None)"

definition Priority_of :: "string \<Rightarrow> Priority option" where
  "Priority_of s =
     (if s = ''low'' then Some LOW
      else if s = ''normal'' then Some NORMAL
      else if s = ''high'' then Some HIGH
      else None)"

text \<open>
  A \<open>datetime\<close> is a count of microseconds (the resolution of Python's
  \<open>datetime\<close>); \<open>datetime.utcnow()\<close> is an input of every operation that reads the
  clock. The payload and the result are opaque to the queue and are kept as strings.
\<close>

type_synonym datetime = int

record QueuedRequest =
  request_id :: string
  model_name :: string
  task_type :: string
  client_id :: string
  payload :: string
  priority :: Priority
  status :: RequestStatus
  created_at :: datetime
  started_at :: "datetime option"
  completed_at :: "datetime option"
  timeout_seconds :: int
  retry_count :: int
  max_retries :: int
  error :: "string option"
  result :: "string option"

text \<open>
  A document is a dictionary with the keys \<open>to_dict\<close> builds, the two enums as their
  string values, and possibly the key \<open>_id\<close> (field \<open>d_id\<close>, an ObjectId kept as a
  number). \<open>to_dict\<close> builds a dictionary without \<open>_id\<close>; every document that is in
  the collection has one, given by the store when the document is inserted, and the
  collection hands it out with the document. \<open>from_dict\<close> ends in \<open>cls(**data)\<close>, which
  raises \<open>TypeError\<close> on a key that is not a field of the dataclass: a dictionary
  with \<open>_id\<close> is rejected, after the two enum conversions. The ISO-8601 text of a
  timestamp is not modelled: \<open>isoformat\<close> followed by \<open>fromisoformat\<close> is taken as
  the identity.
\<close>

record document =
  d_id :: "nat option"
  d_request_id :: string
  d_model_name :: string
  d_task_type :: string
  d_client_id :: string
  d_payload :: string
  d_priority :: string
  d_status :: string
  d_created_at :: datetime
  d_started_at :: "datetime option"
  d_completed_at :: "datetime option"
  d_timeout_seconds :: int
  d_retry_count :: int
  d_max_retries :: int
  d_error :: "string option"
  d_result :: "string option"

definition to_dict :: "QueuedRequest \<Rightarrow> document" where
  "to_dict r =
     \<lparr> d_id = None, d_request_id = request_id r, d_model_name = model_name r,
       d_task_type = task_type r, d_client_id = client_id r, d_payload = payload r,
       d_priority = priority_value (priority r), d_status = status_value (status r),
       d_created_at = created_at r, d_started_at = started_at r,
       d_completed_at = completed_at r, d_timeout_seconds = timeout_seconds r,
       d_retry_count = retry_count r, d_max_retries = max_retries r,
       d_error = error r, d_result = result r \<rparr>"

definition from_dict :: "document \<Rightarrow> QueuedRequest option" where
  "from_dict d =
     (case Priority_of (d_priority d) of
        None \<Rightarrow> None
      | Some p \<Rightarrow>
          (case RequestStatus_of (d_status d) of
             None \<Rightarrow> None
           | Some s \<Rightarrow>
               (case d_id d of
                  Some oid \<Rightarrow> None
                | None \<Rightarrow>
                    Some \<lparr> request_id = d_request_id d, model_name = d_model_name d,
                           task_type = d_task_type d, client_id = d_client_id d,
                           payload = d_payload d, priority = p, status = s,
                           created_at = d_created_at d, started_at = d_started_at d,
                           completed_at = d_completed_at d,
                           timeout_seconds = d_timeout_seconds d,
                           retry_count = d_retry_count d, max_retries = d_max_retries d,
                           error = d_error d, result = d_result d \<rparr>)))"

text \<open>
  \<open>is_timeout\<close>: \<open>timeout_seconds\<close> is in seconds, the clock in microseconds.
\<close>

definition is_timeout :: "datetime \<Rightarrow> QueuedRequest \<Rightarrow> bool" where
  "is_timeout now r =
     (case started_at r of
        None \<Rightarrow> False
      | Some s \<Rightarrow> (now - s) > timeout_seconds r * 1000000)"

section \<open>The crash-proof queue\<close>

text \<open>
  \<open>processing\<close> is a Python dict, kept as an association list in insertion order
  (\<open>AList.update\<close> overwrites a present key in place and appends a new one, as a dict
  assignment does; \<open>AList.delete\<close> is \<open>pop\<close> on a present key). \<open>waiting\<close> is the
  deque, head first. \<open>collection\<close> is the content of the \<open>queue_state\<close> collection in
  the order a scan returns it.
\<close>

record CrashProofQueue =
  queue_model_name :: string
  max_concurrent :: int
  max_waiting :: int
  processing :: "(string \<times> QueuedRequest) list"
  waiting :: "QueuedRequest list"
  collection :: "document list"
  total_processed :: int
  total_failed :: int
  total_timeout :: int

datatype error = QueueFullError

definition new_queue :: "string \<Rightarrow> int \<Rightarrow> int \<Rightarrow> document list \<Rightarrow> CrashProofQueue" where
  "new_queue name mc mw store =
     \<lparr> queue_model_name = name, max_concurrent = mc, max_waiting = mw,
       processing = [], waiting = [], collection = store,
       total_processed = 0, total_failed = 0, total_timeout = 0 \<rparr>"

text \<open>
  \<open>update_one({"request_id": rid}, {"$set": doc}, upsert=True)\<close>: the first document
  with that id takes the new field values and keeps its \<open>_id\<close>; when there is none
  the document is inserted with the \<open>_id\<close> the store gives it, \<open>oid\<close>.
  \<open>new_object_id\<close> is an \<open>_id\<close> that no document of the collection has.
\<close>

fun update_one_upsert :: "nat \<Rightarrow> string \<Rightarrow> document \<Rightarrow> document list \<Rightarrow> document list" where
  "update_one_upsert oid rid doc [] = [doc\<lparr>d_id := Some oid\<rparr>]"
| "update_one_upsert oid rid doc (d # ds) =
     (if d_request_id d = rid then doc\<lparr>d_id := d_id d\<rparr> # ds
      else d # update_one_upsert oid rid doc ds)"

fun new_object_id :: "document list \<Rightarrow> nat" where
  "new_object_id [] = 0"
| "new_object_id (d # ds) =
     max (case d_id d of None \<Rightarrow> 0 | Some n \<Rightarrow> Suc n) (new_object_id ds)"

text \<open>A document as \<open>to_dict\<close> would build it: the key \<open>_id\<close> left out.\<close>

definition without_id :: "document \<Rightarrow> document" where
  "without_id d = d\<lparr>d_id := None\<rparr>"

text \<open>\<open>find_one({"request_id": rid})\<close>, as \<open>get_status\<close> reads the store.\<close>

fun find_one :: "string \<Rightarrow> document list \<Rightarrow> document option" where
  "find_one rid [] = None"
| "find_one rid (d # ds) = (if d_request_id d = rid then Some d else find_one rid ds)"

text \<open>
  \<open>_persist_request\<close>: the flag \<open>ok\<close> says whether the write reaches the store; when
  it raises, the exception is logged and swallowed and the store is left as it was.
\<close>

definition persist_request :: "bool \<Rightarrow> QueuedRequest \<Rightarrow> CrashProofQueue \<Rightarrow> CrashProofQueue" where
  "persist_request ok r q =
     (if ok then
        q\<lparr>collection := update_one_upsert (new_object_id (collection q)) (request_id r)
                            (to_dict r) (collection q)\<rparr>
      else q)"

fun priority_order :: "Priority \<Rightarrow> nat" where
  "priority_order HIGH = 0"
| "priority_order NORMAL = 1"
| "priority_order LOW = 2"

fun insert_by_priority :: "QueuedRequest \<Rightarrow> QueuedRequest list \<Rightarrow> QueuedRequest list" where
  "insert_by_priority r [] = [r]"
| "insert_by_priority r (e # es) =
     (if priority_order (priority r) < priority_order (priority e) then r # e # es
      else e # insert_by_priority r es)"

text \<open>The sort key of \<open>waiting\<close>.\<close>

abbreviation rank :: "QueuedRequest \<Rightarrow> nat" where
  "rank e \<equiv> priority_order (priority e)"

text \<open>
  \<open>enqueue\<close>. \<open>uid\<close> is the value \<open>uuid.uuid4()\<close> returns and \<open>now\<close> the clock read by
  the \<open>created_at\<close> default; neither is consulted when the queue is full.
\<close>

definition enqueue ::
  "string \<Rightarrow> datetime \<Rightarrow> bool \<Rightarrow> string \<Rightarrow> string \<Rightarrow> string \<Rightarrow> Priority \<Rightarrow> int \<Rightarrow>
   CrashProofQueue \<Rightarrow> error + (string \<times> CrashProofQueue)" where
  "enqueue uid now ok pl task client prio tmo q =
     (if int (length (waiting q)) \<ge> max_waiting q then Inl QueueFullError
      else
        let request = \<lparr> request_id = uid, model_name = queue_model_name q,
                         task_type = task, client_id = client, payload = pl,
                         priority = prio, status = QUEUED, created_at = now,
                         started_at = None, completed_at = None,
                         timeout_seconds = tmo, retry_count = 0, max_retries = 3,
                         error = None, result = None \<rparr>;
            q1 = q\<lparr>waiting := insert_by_priority request (waiting q)\<rparr>
        in Inr (uid, persist_request ok request q1))"

definition dequeue :: "datetime \<Rightarrow> bool \<Rightarrow> CrashProofQueue \<Rightarrow> QueuedRequest option \<times> CrashProofQueue" where
  "dequeue now ok q =
     (if int (length (processing q)) \<ge> max_concurrent q then (None, q)
      else
        (case waiting q of
           [] \<Rightarrow> (None, q)
         | r # rest \<Rightarrow>
             let request = r\<lparr>status := PROCESSING, started_at := Some now\<rparr>;
                 q1 = q\<lparr>waiting := rest,
                        processing := AList.update (request_id request) request (processing q)\<rparr>
             in (Some request, persist_request ok request q1)))"

definition complete :: "string \<Rightarrow> string option \<Rightarrow> datetime \<Rightarrow> bool \<Rightarrow> CrashProofQueue \<Rightarrow> CrashProofQueue" where
  "complete rid res now ok q =
     (case map_of (processing q) rid of
        None \<Rightarrow> q
      | Some r \<Rightarrow>
          let request = r\<lparr>status := COMPLETED, completed_at := Some now, result := res\<rparr>;
              q1 = q\<lparr>processing := AList.delete rid (processing q),
                     total_processed := total_processed q + 1\<rparr>
          in persist_request ok request q1)"

definition fail :: "string \<Rightarrow> string \<Rightarrow> datetime \<Rightarrow> bool \<Rightarrow> CrashProofQueue \<Rightarrow> CrashProofQueue" where
  "fail rid err now ok q =
     (case map_of (processing q) rid of
        None \<Rightarrow> q
      | Some r \<Rightarrow>
          let q1 = q\<lparr>processing := AList.delete rid (processing q)\<rparr>;
              request = r\<lparr>error := Some err, retry_count := retry_count r + 1\<rparr>
          in
            if retry_count request < max_retries request then
              let request' = request\<lparr>status := QUEUED, started_at := None\<rparr>
              in persist_request ok request'
                   (q1\<lparr>waiting := insert_by_priority request' (waiting q1)\<rparr>)
            else
              let request' = request\<lparr>status := FAILED, completed_at := Some now\<rparr>
              in persist_request ok request'
                   (q1\<lparr>total_failed := total_failed q1 + 1\<rparr>))"

text \<open>
  \<open>recover_from_crash\<close>. The cursor is the scan for this queue's model name and the
  two pending statuses, taken when the scan starts; it is given no projection, so the
  documents come with their \<open>_id\<close>. A document that \<open>from_dict\<close> rejects is logged
  and skipped by the \<open>except\<close> clause. \<open>wr\<close> says, per request
  id, whether the write of that request reaches the store.
\<close>

definition cursor_matches :: "string \<Rightarrow> document \<Rightarrow> bool" where
  "cursor_matches name d =
     (d_model_name d = name \<and> (d_status d = ''queued'' \<or> d_status d = ''processing''))"

definition reset_if_processing :: "QueuedRequest \<Rightarrow> QueuedRequest" where
  "reset_if_processing r =
     (if status r = PROCESSING
      then r\<lparr>status := QUEUED, started_at := None, retry_count := retry_count r + 1\<rparr>
      else r)"

definition recover_one :: "(string \<Rightarrow> bool) \<Rightarrow> CrashProofQueue \<Rightarrow> document \<Rightarrow> CrashProofQueue" where
  "recover_one wr q doc =
     (case from_dict doc of
        None \<Rightarrow> q
      | Some r \<Rightarrow>
          let request = reset_if_processing r in
            if retry_count request < max_retries request
            then q\<lparr>waiting := insert_by_priority request (waiting q)\<rparr>
            else persist_request (wr (request_id request)) (request\<lparr>status := FAILED\<rparr>) q)"

definition recover_from_crash :: "(string \<Rightarrow> bool) \<Rightarrow> CrashProofQueue \<Rightarrow> CrashProofQueue" where
  "recover_from_crash wr q =
     foldl (recover_one wr) q (filter (cursor_matches (queue_model_name q)) (collection q))"

text \<open>
  One pass of the body of \<open>_recovery_loop\<close> (after the sleep). \<open>clock k\<close> is the
  clock \<open>is_timeout\<close> reads for request \<open>k\<close>, \<open>fin k\<close> the clock read for its
  \<open>completed_at\<close>. A \<open>pop\<close> of an id that is no longer in \<open>processing\<close> raises
  \<open>KeyError\<close>, which the loop's \<open>except\<close> clause logs: the pass ends there.
\<close>

definition timeout_ids :: "(string \<Rightarrow> datetime) \<Rightarrow> CrashProofQueue \<Rightarrow> string list" where
  "timeout_ids clock q = map fst (filter (\<lambda>(k, r). is_timeout (clock k) r) (processing q))"

fun handle_timeouts ::
  "(string \<Rightarrow> datetime) \<Rightarrow> (string \<Rightarrow> bool) \<Rightarrow> string list \<Rightarrow> CrashProofQueue \<Rightarrow> CrashProofQueue" where
  "handle_timeouts fin wr [] q = q"
| "handle_timeouts fin wr (k # ks) q =
     (case map_of (processing q) k of
        None \<Rightarrow> q
      | Some r \<Rightarrow>
          handle_timeouts fin wr ks
            (persist_request (wr k) (r\<lparr>status := TIMEOUT, completed_at := Some (fin k)\<rparr>)
               (q\<lparr>processing := AList.delete k (processing q),
                   total_timeout := total_timeout q + 1\<rparr>)))"

definition recovery_loop_pass ::
  "(string \<Rightarrow> datetime) \<Rightarrow> (string \<Rightarrow> datetime) \<Rightarrow> (string \<Rightarrow> bool) \<Rightarrow> CrashProofQueue \<Rightarrow> CrashProofQueue" where
  "recovery_loop_pass clock fin wr q = handle_timeouts fin wr (timeout_ids clock q) q"

section \<open>Calls on a queue, one after the other\<close>

text \<open>
  A caller's view of the queue: each operation is one call with the values it gets from
  its caller and from the environment, each outcome what the call returns or raises.
  A raised \<open>QueueFullError\<close> leaves the queue object as the call found it.
\<close>

datatype operation =
    Enqueue string datetime bool string string string Priority int
  | Dequeue datetime bool
  | Complete string "string option" datetime bool
  | Fail string string datetime bool
  | RecoverFromCrash "string \<Rightarrow> bool"
  | RecoveryLoopPass "string \<Rightarrow> datetime" "string \<Rightarrow> datetime" "string \<Rightarrow> bool"

datatype outcome =
    Returned_id string
  | Raised error
  | Returned_request "QueuedRequest option"
  | Returned_nothing

fun step :: "CrashProofQueue \<Rightarrow> operation \<Rightarrow> outcome \<times> CrashProofQueue" where
  "step q (Enqueue uid now ok pl task client prio tmo) =
     (case enqueue uid now ok pl task client prio tmo q of
        Inl e \<Rightarrow> (Raised e, q)
      | Inr (rid, q') \<Rightarrow> (Returned_id rid, q'))"
| "step q (Dequeue now ok) = (case dequeue now ok q of (r, q') \<Rightarrow> (Returned_request r, q'))"
| "step q (Complete rid res now ok) = (Returned_nothing, complete rid res now ok q)"
| "step q (Fail rid err now ok) = (Returned_nothing, fail rid err now ok q)"
| "step q (RecoverFromCrash wr) = (Returned_nothing, recover_from_crash wr q)"
| "step q (RecoveryLoopPass clock fin wr) = (Returned_nothing, recovery_loop_pass clock fin wr q)"

fun run :: "CrashProofQueue \<Rightarrow> operation list \<Rightarrow> outcome list \<times> CrashProofQueue" where
  "run q [] = ([], q)"
| "run q (op # ops) =
     (case step q op of (out, q') \<Rightarrow> (case run q' ops of (outs, q'') \<Rightarrow> (out # outs, q'')))"

text \<open>The four public calls of the claims about call sequences.\<close>

fun is_queue_call :: "operation \<Rightarrow> bool" where
  "is_queue_call (RecoverFromCrash wr) = False"
| "is_queue_call (RecoveryLoopPass clock fin wr) = False"
| "is_queue_call _ = True"

fun is_fail_call :: "operation \<Rightarrow> bool" where
  "is_fail_call (Fail rid err now ok) = True"
| "is_fail_call _ = False"

text \<open>
  A worker that takes \<open>n\<close> turns: each turn calls \<open>dequeue\<close> and, when it is handed a
  request, reports it at once with \<open>complete\<close> (\<open>dequeue_then_complete\<close>) or with
  \<open>fail\<close> (\<open>dequeue_then_fail\<close>). The result lists the ids dispatched, in order.
\<close>

fun dequeue_then_complete ::
  "datetime \<Rightarrow> bool \<Rightarrow> nat \<Rightarrow> CrashProofQueue \<Rightarrow> string list \<times> CrashProofQueue" where
  "dequeue_then_complete now ok 0 q = ([], q)"
| "dequeue_then_complete now ok (Suc n) q =
     (case dequeue now ok q of
        (None, q1) \<Rightarrow> dequeue_then_complete now ok n q1
      | (Some r, q1) \<Rightarrow>
          (case dequeue_then_complete now ok n (complete (request_id r) None now ok q1) of
             (ids, q2) \<Rightarrow> (request_id r # ids, q2)))"

fun dequeue_then_fail ::
  "datetime \<Rightarrow> bool \<Rightarrow> nat \<Rightarrow> CrashProofQueue \<Rightarrow> string list \<times> CrashProofQueue" where
  "dequeue_then_fail now ok 0 q = ([], q)"
| "dequeue_then_fail now ok (Suc n) q =
     (case dequeue now ok q of
        (None, q1) \<Rightarrow> dequeue_then_fail now ok n q1
      | (Some r, q1) \<Rightarrow>
          (case dequeue_then_fail now ok n (fail (request_id r) ''boom'' now ok q1) of
             (ids, q2) \<Rightarrow> (request_id r # ids, q2)))"

section \<open>The auto-switcher (\<open>app/monitoring/auto_switcher.py\<close>)\<close>

text \<open>
  \<open>get_metrics\<close>, without the floating-point \<open>utilization\<close> entry.
\<close>

record queue_metrics =
  metric_model :: string
  metric_processing :: int
  metric_waiting :: int
  metric_max_concurrent :: int
  metric_max_waiting :: int
  metric_total_processed :: int
  metric_total_failed :: int
  metric_total_timeout :: int

definition get_metrics :: "CrashProofQueue \<Rightarrow> queue_metrics" where
  "get_metrics q =
     \<lparr> metric_model = queue_model_name q,
       metric_processing = int (length (processing q)),
       metric_waiting = int (length (waiting q)),
       metric_max_concurrent = max_concurrent q,
       metric_max_waiting = max_waiting q,
       metric_total_processed = total_processed q,
       metric_total_failed = total_failed q,
       metric_total_timeout = total_timeout q \<rparr>"

text \<open>
  \<open>PatternAnalyzer.should_switch_model\<close>, on the dictionary \<open>analyze_patterns\<close>
  returned (its \<open>recommended_model\<close> and \<open>confidence\<close> entries, either of which may
  be absent). \<open>not recommended\<close> holds for \<open>None\<close> and for the empty string.
\<close>

record analysis =
  recommended_model :: "string option"
  confidence :: "real option"

definition should_switch_model :: "string option \<Rightarrow> analysis \<Rightarrow> string option" where
  "should_switch_model current a =
     (case recommended_model a of
        None \<Rightarrow> None
      | Some recommended \<Rightarrow>
          if recommended = [] then None
          else if current = Some recommended then None
          else if (case confidence a of None \<Rightarrow> 0 | Some c \<Rightarrow> c) < 6 / 10 then None
          else Some recommended)"

text \<open>
  The switcher's own state: the cooldown of its configuration, \<open>last_switch\<close>, and the
  queues it was given (name to queue, as the dict is iterated).
\<close>

record AutoSwitcher =
  switch_cooldown_minutes :: int
  last_switch :: "datetime option"
  queues :: "(string \<times> CrashProofQueue) list"

fun are_queues_idle :: "(string \<times> CrashProofQueue) list \<Rightarrow> bool" where
  "are_queues_idle [] = True"
| "are_queues_idle ((name, queue) # rest) =
     (if metric_processing (get_metrics queue) > 0 then False else are_queues_idle rest)"

text \<open>
  \<open>_check_and_switch\<close>. Its inputs from outside: \<open>now\<close>, the clock at the cooldown
  test; \<open>current\<close>, the manager's \<open>current_model\<close>; \<open>a\<close>, the analysis the pattern
  analyzer computes; \<open>success\<close>, what \<open>switch_model\<close> returns; \<open>now'\<close>, the clock
  after the switch. The first component of the result lists the calls made on the model
  manager.
\<close>

datatype manager_call = Switch_model string

definition check_and_switch ::
  "datetime \<Rightarrow> string option \<Rightarrow> analysis \<Rightarrow> bool \<Rightarrow> datetime \<Rightarrow> AutoSwitcher \<Rightarrow>
   manager_call list \<times> AutoSwitcher" where
  "check_and_switch now current a success now' s =
     (if (case last_switch s of
            None \<Rightarrow> False
          | Some t \<Rightarrow> now - t < switch_cooldown_minutes s * 60 * 1000000)
      then ([], s)
      else
        (case should_switch_model current a of
           None \<Rightarrow> ([], s)
         | Some recommended \<Rightarrow>
             if recommended = [] then ([], s)
             else if \<not> are_queues_idle (queues s) then ([], s)
             else ([Switch_model recommended],
                   if success then s\<lparr>last_switch := Some now'\<rparr> else s)))"

section \<open>Graceful stop in the model manager (\<open>app/models/manager.py\<close>)\<close>

datatype ModelStatus = STOPPED | STARTING | RUNNING | STOPPING | ERROR

record ModelInfo =
  m_status :: ModelStatus
  process :: bool
  m_started_at :: "datetime option"
  m_stopped_at :: "datetime option"

record ModelManager =
  models :: "(string \<times> ModelInfo) list"
  current_model :: "string option"

definition get_active_requests :: "ModelManager \<Rightarrow> string \<Rightarrow> int" where
  "get_active_requests m name = 0"

text \<open>
  The drain loop of \<open>stop_model\<close>. \<open>clock i\<close> is the \<open>i\<close>-th value \<open>time.time()\<close>
  returns during the call, in seconds; \<open>seen\<close> collects the active-request counts the
  loop has read. The loop may run for as long as the clock allows, so it is a partial
  function: \<open>None\<close> stands for a loop that never exits.
\<close>

partial_function (option) drain_wait ::
  "ModelManager \<Rightarrow> string \<Rightarrow> (nat \<Rightarrow> real) \<Rightarrow> real \<Rightarrow> int \<Rightarrow> nat \<Rightarrow> int list
   \<Rightarrow> (nat \<times> int list) option" where
  "drain_wait m name clock start_time timeout i seen =
     (if clock i - start_time < real_of_int timeout then
        (let active_requests = get_active_requests m name in
           if active_requests = 0 then Some (Suc i, seen @ [active_requests])
           else drain_wait m name clock start_time timeout (Suc i) (seen @ [active_requests]))
      else Some (Suc i, seen))"

text \<open>
  \<open>stop_model\<close>. \<open>kill_ok\<close> says whether terminating the child process goes through
  without an exception; \<open>now\<close> is the clock for \<open>stopped_at\<close>. The result carries the
  return value, the manager afterwards and the counts the drain loop read.
\<close>

definition stop_model ::
  "(nat \<Rightarrow> real) \<Rightarrow> bool \<Rightarrow> datetime \<Rightarrow> string \<Rightarrow> bool \<Rightarrow> int \<Rightarrow> ModelManager
   \<Rightarrow> (bool \<times> ModelManager \<times> int list) option" where
  "stop_model clock kill_ok now model_name' graceful timeout m =
     (case map_of (models m) model_name' of
        None \<Rightarrow> Some (False, m, [])
      | Some model_info \<Rightarrow>
          if m_status model_info = STOPPED then Some (True, m, [])
          else
            let m1 = m\<lparr>models := AList.update model_name' (model_info\<lparr>m_status := STOPPING\<rparr>) (models m)\<rparr>
            in
              (case (if graceful then drain_wait m1 model_name' clock (clock 0) timeout 1 []
                     else Some (0, [])) of
                 None \<Rightarrow> None
               | Some (i, seen) \<Rightarrow>
                   if kill_ok then
                     Some (True,
                           m1\<lparr>models := AList.update model_name'
                                 (model_info\<lparr>m_status := STOPPED, process := False,
                                              m_stopped_at := Some now\<rparr>) (models m1),
                              current_model := (if current_model m1 = Some model_name' then None
                                                else current_model m1)\<rparr>,
                           seen)
                   else
                     Some (False,
                           m1\<lparr>models := AList.update model_name'
                                 (model_info\<lparr>m_status := ERROR\<rparr>) (models m1)\<rparr>,
                           seen)))"

section \<open>Concrete states used as examples\<close>

definition one_processing :: CrashProofQueue where
  "one_processing =
     snd (run (new_queue ''gemma'' 1 10 [])
            [Enqueue ''u'' 1 True ''p'' ''chat'' ''c'' NORMAL 300, Dequeue 2 True])"

definition busy_switcher :: AutoSwitcher where
  "busy_switcher =
     \<lparr> switch_cooldown_minutes = 5, last_switch = None,
       queues = [(''deepseek'', new_queue ''deepseek'' 1 10 []), (''gemma'', one_processing)] \<rparr>"

definition strong_analysis :: analysis where
  "strong_analysis = \<lparr> recommended_model = Some ''deepseek'', confidence = Some 1 \<rparr>"

definition running_manager :: ModelManager where
  "running_manager =
     \<lparr> models = [(''gemma'', \<lparr> m_status = RUNNING, process = True,
                              m_started_at = Some 0, m_stopped_at = None \<rparr>)],
       current_model = Some ''gemma'' \<rparr>"

definition one_queued :: CrashProofQueue where
  "one_queued =
     snd (run (new_queue ''B'' 1 10 [])
            [Enqueue ''u'' 1 True ''p'' ''chat'' ''c'' NORMAL 300])"

definition priority_scenario :: CrashProofQueue where
  "priority_scenario =
     snd (run (new_queue ''B'' 1 10 [])
            [Enqueue ''n1'' 1 True ''p'' ''chat'' ''c'' NORMAL 300,
             Enqueue ''n2'' 2 True ''p'' ''chat'' ''c'' NORMAL 300,
             Enqueue ''n3'' 3 True ''p'' ''chat'' ''c'' NORMAL 300,
             Enqueue ''n4'' 4 True ''p'' ''chat'' ''c'' NORMAL 300,
             Enqueue ''n5'' 5 True ''p'' ''chat'' ''c'' NORMAL 300,
             Enqueue ''h1'' 6 True ''p'' ''chat'' ''c'' HIGH 300])"

text \<open>
  A request that has failed twice and is dispatched a third time when the process dies:
  \<open>crashed_store\<close> is what the store holds then. \<open>restarted_run\<close> is a restart on
  that store: the recovery, then a new request that is dispatched and completed.
\<close>

definition crashed_store :: "document list" where
  "crashed_store =
     collection (snd (run (new_queue ''B'' 1 10 [])
       [Enqueue ''u'' 1 True ''p'' ''chat'' ''c'' NORMAL 300,
        Dequeue 2 True, Fail ''u'' ''boom'' 3 True,
        Dequeue 4 True, Fail ''u'' ''boom'' 5 True,
        Dequeue 6 True]))"

definition restarted_run :: CrashProofQueue where
  "restarted_run =
     snd (run (new_queue ''B'' 1 10 crashed_store)
       [RecoverFromCrash (\<lambda>k. True),
        Enqueue ''v'' 7 True ''p'' ''chat'' ''c'' NORMAL 300,
        Dequeue 8 True, Complete ''v'' None 9 True])"

text \<open>
  The shortest run that overfills the waiting room: with room for one waiting request,
  a second request is admitted while the first is being processed, and the first then
  fails and is put back.
\<close>

definition overfull_run :: CrashProofQueue where
  "overfull_run =
     snd (run (new_queue ''B'' 1 1 [])
            [Enqueue ''a'' 1 True ''p'' ''chat'' ''c'' NORMAL 300,
             Dequeue 2 True,
             Enqueue ''b'' 3 True ''p'' ''chat'' ''c'' NORMAL 300,
             Fail ''a'' ''boom'' 4 True])"

text \<open>
  What every entry of \<open>processing\<close> and of \<open>waiting\<close> looks like in a queue that
  was built by calls on a fresh queue.
\<close>

definition processing_ok :: "CrashProofQueue \<Rightarrow> bool" where
  "processing_ok q \<longleftrightarrow>
     distinct (map fst (processing q))
     \<and> (\<forall>(k, r) \<in> set (processing q).
           request_id r = k \<and> status r = PROCESSING \<and> started_at r \<noteq> None)
     \<and> (\<forall>r \<in> set (waiting q). status r = QUEUED)"

text \<open>
  Two requests are dispatched at time 10; at the next pass the clock reads 20000000 (20
  seconds) and only the first, with a timeout of 5 seconds, has run out of time.
\<close>

definition two_processing :: CrashProofQueue where
  "two_processing =
     snd (run (new_queue ''B'' 2 10 [])
            [Enqueue ''a'' 1 True ''p'' ''chat'' ''c'' NORMAL 5,
             Enqueue ''b'' 2 True ''p'' ''chat'' ''c'' NORMAL 300,
             Dequeue 10 True, Dequeue 10 True])"

text \<open>
  The terminal statuses, and the rows of the store that are in one.
\<close>

fun terminal :: "RequestStatus \<Rightarrow> bool" where
  "terminal COMPLETED = True"
| "terminal FAILED = True"
| "terminal TIMEOUT = True"
| "terminal CANCELLED = True"
| "terminal QUEUED = False"
| "terminal PROCESSING = False"

definition terminal_row :: "document \<Rightarrow> bool" where
  "terminal_row d =
     (case RequestStatus_of (d_status d) of None \<Rightarrow> False | Some s \<Rightarrow> terminal s)"

text \<open>A restart on a store that holds one queued row.\<close>

definition restarted_queue :: CrashProofQueue where
  "restarted_queue = new_queue ''B'' 1 10 (collection one_queued)"

section \<open>Basic facts\<close>

lemma persist_request_fields [simp]:
  "queue_model_name (persist_request ok r q) = queue_model_name q"
  "max_concurrent (persist_request ok r q) = max_concurrent q"
  "max_waiting (persist_request ok r q) = max_waiting q"
  "processing (persist_request ok r q) = processing q"
  "waiting (persist_request ok r q) = waiting q"
  "total_processed (persist_request ok r q) = total_processed q"
  "total_failed (persist_request ok r q) = total_failed q"
  "total_timeout (persist_request ok r q) = total_timeout q"
  by (simp_all add: persist_request_def)

lemma persist_request_collection:
  "collection (persist_request ok r q) =
     (if ok then update_one_upsert (new_object_id (collection q)) (request_id r) (to_dict r)
                   (collection q)
      else collection q)"
  by (simp add: persist_request_def)

lemma length_insert_by_priority [simp]:
  "length (insert_by_priority r ws) = Suc (length ws)"
  by (induction ws) simp_all

section \<open>Admission\<close>

text \<open>
  C8. \<open>enqueue\<close> raises \<open>QueueFullError\<close> exactly when \<open>len(waiting) >= max_waiting\<close>
  at the call. With \<open>max_waiting = 3\<close>, four enqueues on a fresh queue and no dequeue
  return the three ids and then raise. A call that raises returns no id and leaves
  \<open>waiting\<close>, \<open>processing\<close> and the store (the whole queue state) as they were.
\<close>

theorem enqueue_queue_full:
  "(enqueue uid now ok pl task client prio tmo q = Inl QueueFullError
      \<longleftrightarrow> int (length (waiting q)) \<ge> max_waiting q)
   \<and> (int (length (waiting q)) \<ge> max_waiting q \<longrightarrow>
        step q (Enqueue uid now ok pl task client prio tmo) = (Raised QueueFullError, q))
   \<and> (int (length (waiting q)) < max_waiting q \<longrightarrow>
        (\<exists>q'. enqueue uid now ok pl task client prio tmo q = Inr (uid, q')
              \<and> length (waiting q') = Suc (length (waiting q))))
   \<and> fst (run (new_queue name mc 3 store)
        [Enqueue u1 t1 k1 p1 a1 c1 y1 m1, Enqueue u2 t2 k2 p2 a2 c2 y2 m2,
         Enqueue u3 t3 k3 p3 a3 c3 y3 m3, Enqueue u4 t4 k4 p4 a4 c4 y4 m4])
      = [Returned_id u1, Returned_id u2, Returned_id u3, Raised QueueFullError]"
proof -
  have a: "enqueue uid now ok pl task client prio tmo q = Inl QueueFullError
      \<longleftrightarrow> int (length (waiting q)) \<ge> max_waiting q"
    by (simp add: enqueue_def Let_def)
  have b: "int (length (waiting q)) \<ge> max_waiting q \<longrightarrow>
        step q (Enqueue uid now ok pl task client prio tmo) = (Raised QueueFullError, q)"
    by (simp add: enqueue_def)
  have c: "int (length (waiting q)) < max_waiting q \<longrightarrow>
        (\<exists>q'. enqueue uid now ok pl task client prio tmo q = Inr (uid, q')
              \<and> length (waiting q') = Suc (length (waiting q)))"
    by (simp add: enqueue_def Let_def)
  have d: "fst (run (new_queue name mc 3 store)
        [Enqueue u1 t1 k1 p1 a1 c1 y1 m1, Enqueue u2 t2 k2 p2 a2 c2 y2 m2,
         Enqueue u3 t3 k3 p3 a3 c3 y3 m3, Enqueue u4 t4 k4 p4 a4 c4 y4 m4])
      = [Returned_id u1, Returned_id u2, Returned_id u3, Raised QueueFullError]"
    by (simp add: enqueue_def Let_def new_queue_def)
  from a b c d show ?thesis by blast
qed

theorem enqueue_queue_full_witness:
  "step (new_queue ''gemma'' 1 0 []) (Enqueue ''u'' 0 True ''p'' ''chat'' ''c'' NORMAL 300)
     = (Raised QueueFullError, new_queue ''gemma'' 1 0 [])
   \<and> (\<exists>q'. enqueue ''u'' 0 True ''p'' ''chat'' ''c'' NORMAL 300 (new_queue ''gemma'' 1 1 [])
              = Inr (''u'', q') \<and> length (waiting q') = 1)"
  using enqueue_queue_full [of "''u''" 0 True "''p''" "''chat''" "''c''" NORMAL 300
          "new_queue ''gemma'' 1 0 []"]
        enqueue_queue_full [of "''u''" 0 True "''p''" "''chat''" "''c''" NORMAL 300
          "new_queue ''gemma'' 1 1 []"]
  by (simp add: new_queue_def)

section \<open>The auto-switcher postpones while a queue is busy\<close>

lemma are_queues_idle_iff:
  "are_queues_idle qs \<longleftrightarrow> (\<forall>(name, queue) \<in> set qs. \<not> metric_processing (get_metrics queue) > 0)"
  by (induction qs rule: are_queues_idle.induct) auto

text \<open>
  C9. If the metrics of any queue of the switcher report \<open>processing > 0\<close> at the idle
  check, \<open>_check_and_switch\<close> makes no call to \<open>switch_model\<close> and returns with its
  state, \<open>last_switch\<close> included, unchanged. The idle check and the call are the same
  step, so \<open>switch_model\<close> is never called while a queue has \<open>processing > 0\<close>.
\<close>

theorem auto_switcher_postpones:
  assumes "(name, queue) \<in> set (queues s)"
    and "metric_processing (get_metrics queue) > 0"
  shows "check_and_switch now current a success now' s = ([], s)"
proof -
  from assms have "\<not> are_queues_idle (queues s)"
    by (auto simp: are_queues_idle_iff)
  then show ?thesis
    by (simp add: check_and_switch_def split: option.splits)
qed

text \<open>
  One busy queue among two: no call and no change, although the same step with the busy
  queue left out does call \<open>switch_model\<close>.
\<close>

theorem auto_switcher_postpones_witness:
  "metric_processing (get_metrics one_processing) = 1
   \<and> check_and_switch 1000 (Some ''gemma'') strong_analysis True 1001 busy_switcher
       = ([], busy_switcher)
   \<and> fst (check_and_switch 1000 (Some ''gemma'') strong_analysis True 1001
            (busy_switcher\<lparr>queues := [(''deepseek'', new_queue ''deepseek'' 1 10 [])]\<rparr>))
       = [Switch_model ''deepseek'']"
proof -
  have m: "metric_processing (get_metrics one_processing) = 1"
    unfolding one_processing_def by code_simp
  have i: "(''gemma'', one_processing) \<in> set (queues busy_switcher)"
    by (simp add: busy_switcher_def)
  have p: "metric_processing (get_metrics one_processing) > 0"
    using m by simp
  have s: "fst (check_and_switch 1000 (Some ''gemma'') strong_analysis True 1001
            (busy_switcher\<lparr>queues := [(''deepseek'', new_queue ''deepseek'' 1 10 [])]\<rparr>))
       = [Switch_model ''deepseek'']"
    by (simp add: check_and_switch_def should_switch_model_def strong_analysis_def
          busy_switcher_def get_metrics_def new_queue_def)
  from m s auto_switcher_postpones [OF i p] show ?thesis by simp
qed

section \<open>The graceful stop never waits\<close>

lemma drain_wait_once:
  "drain_wait m name clock start_time timeout i seen =
     (if clock i - start_time < real_of_int timeout then Some (Suc i, seen @ [0])
      else Some (Suc i, seen))"
  by (subst drain_wait.simps) (simp add: get_active_requests_def)

text \<open>
  C10. \<open>_get_active_requests\<close> returns 0 for every manager and every model name. A
  graceful \<open>stop_model\<close> therefore always returns, and its drain loop reads the count
  at most once and reads 0: once when the model is known and not already stopped and the
  timeout has not run out at the first test of the loop, never otherwise. No queue is
  consulted.
\<close>

theorem graceful_stop_polls_at_most_once:
  "get_active_requests m name = 0 \<and>
   (\<exists>ret m' seen. stop_model clock kill_ok now name True timeout m = Some (ret, m', seen)
      \<and> (seen = [] \<or> seen = [0])
      \<and> (seen = [0] \<longleftrightarrow>
           (\<exists>info. map_of (models m) name = Some info \<and> m_status info \<noteq> STOPPED)
            \<and> clock 1 - clock 0 < real_of_int timeout))"
  by (auto simp: get_active_requests_def stop_model_def drain_wait_once Let_def split: option.splits)

theorem graceful_stop_polls_at_most_once_witness:
  "\<exists>ret m'. stop_model (\<lambda>i. real i) True 5 ''gemma'' True 60 running_manager = Some (ret, m', [0])"
proof -
  have a: "map_of (models running_manager) ''gemma''
             = Some \<lparr> m_status = RUNNING, process = True, m_started_at = Some 0, m_stopped_at = None \<rparr>"
    by (simp add: running_manager_def)
  have b: "(\<lambda>i. real i) 1 - (\<lambda>i. real i) 0 < real_of_int 60" by simp
  from graceful_stop_polls_at_most_once [of running_manager "''gemma''" "\<lambda>i. real i" True 5 60] a b
  show ?thesis by auto
qed

section \<open>Priority order of the waiting room\<close>

lemma insert_by_priority_split:
  "sorted (map rank ws) \<Longrightarrow>
   insert_by_priority r ws =
     filter (\<lambda>e. rank e \<le> rank r) ws @ r # filter (\<lambda>e. rank r < rank e) ws"
proof (induction ws)
  case Nil
  then show ?case by simp
next
  case (Cons e es)
  show ?case
  proof (cases "rank r < rank e")
    case True
    with Cons.prems have "\<forall>x \<in> set (e # es). rank r < rank x"
      by auto
    then have "filter (\<lambda>x. rank x \<le> rank r) (e # es) = []"
      and "filter (\<lambda>x. rank r < rank x) (e # es) = e # es"
      by (auto simp: filter_empty_conv filter_id_conv)
    with True show ?thesis by simp
  next
    case False
    with Cons show ?thesis by simp
  qed
qed

lemma set_insert_by_priority [simp]:
  "set (insert_by_priority r ws) = insert r (set ws)"
  by (induction ws) auto

lemma sorted_insert_by_priority:
  "sorted (map rank ws) \<Longrightarrow> sorted (map rank (insert_by_priority r ws))"
  by (induction ws) auto

text \<open>
  C5, as amended. In the scenario (\<open>max_concurrent = 1\<close>, \<open>max_waiting = 10\<close>, five
  NORMAL requests n1..n5 enqueued, then one HIGH request h1, then six dequeues each
  followed at once by \<open>complete\<close>) the dispatch order is h1, n1, n2, n3, n4, n5: h1 was
  enqueued while n1 was still waiting and so is placed before it. In general, insertion
  into a priority-ordered \<open>waiting\<close> puts the request behind every waiting request of
  the same or a higher priority and before every one of a lower priority, and keeps
  \<open>waiting\<close> ordered: buckets HIGH, NORMAL, LOW, first-in first-out inside a bucket.
\<close>

theorem priority_bucket_order:
  "fst (dequeue_then_complete 100 True 6 priority_scenario)
     = [''h1'', ''n1'', ''n2'', ''n3'', ''n4'', ''n5'']
   \<and> (sorted (map (\<lambda>e. priority_order (priority e)) ws) \<longrightarrow>
        insert_by_priority r ws =
          filter (\<lambda>e. priority_order (priority e) \<le> priority_order (priority r)) ws
          @ r # filter (\<lambda>e. priority_order (priority r) < priority_order (priority e)) ws
        \<and> sorted (map (\<lambda>e. priority_order (priority e)) (insert_by_priority r ws)))"
proof -
  have "fst (dequeue_then_complete 100 True 6 priority_scenario)
     = [''h1'', ''n1'', ''n2'', ''n3'', ''n4'', ''n5'']"
    unfolding priority_scenario_def by code_simp
  then show ?thesis
    using insert_by_priority_split [of ws r] sorted_insert_by_priority [of ws r] by blast
qed

theorem priority_bucket_order_witness:
  "insert_by_priority (hd (waiting one_queued)) (waiting priority_scenario)
     = waiting priority_scenario @ [hd (waiting one_queued)]
   \<and> map request_id (waiting priority_scenario) = [''h1'', ''n1'', ''n2'', ''n3'', ''n4'', ''n5'']"
proof -
  have s: "sorted (map (\<lambda>e. priority_order (priority e)) (waiting priority_scenario))"
    unfolding priority_scenario_def by code_simp
  have a: "filter (\<lambda>e. priority_order (priority e) \<le> priority_order (priority (hd (waiting one_queued))))
             (waiting priority_scenario) = waiting priority_scenario"
    unfolding priority_scenario_def one_queued_def by code_simp
  have b: "filter (\<lambda>e. priority_order (priority (hd (waiting one_queued))) < priority_order (priority e))
             (waiting priority_scenario) = []"
    unfolding priority_scenario_def one_queued_def by code_simp
  have c: "map request_id (waiting priority_scenario) = [''h1'', ''n1'', ''n2'', ''n3'', ''n4'', ''n5'']"
    unfolding priority_scenario_def by code_simp
  from priority_bucket_order [of "waiting priority_scenario" "hd (waiting one_queued)"] s a b c
  show ?thesis by simp
qed

theorem priority_scenario_counterexample:
  "fst (dequeue_then_complete 100 True 6 priority_scenario)
     \<noteq> [''n1'', ''h1'', ''n2'', ''n3'', ''n4'', ''n5'']"
  unfolding priority_scenario_def by code_simp

section \<open>What the store holds when \<open>dequeue\<close> returns\<close>

lemma to_dict_request_id [simp]: "d_request_id (to_dict r) = request_id r"
  by (simp add: to_dict_def)

lemma to_dict_status [simp]: "d_status (to_dict r) = status_value (status r)"
  by (simp add: to_dict_def)

lemma without_id_fields [simp]:
  "d_request_id (without_id d) = d_request_id d"
  "d_status (without_id d) = d_status d"
  "d_completed_at (without_id d) = d_completed_at d"
  "d_retry_count (without_id d) = d_retry_count d"
  by (simp_all add: without_id_def)

lemma without_id_to_dict [simp]: "without_id (to_dict r) = to_dict r"
  by (simp add: without_id_def to_dict_def)

lemma row_status:
  "map_option without_id x = Some d \<Longrightarrow> d_status d = l \<Longrightarrow> map_option d_status x = Some l"
  by (cases x) auto

lemma find_one_update_one_upsert:
  "d_request_id doc = rid \<Longrightarrow>
   map_option without_id (find_one rid (update_one_upsert oid rid doc s)) = Some (without_id doc)"
  by (induction s) (auto simp: without_id_def)

text \<open>
  C6, as amended. Whenever \<open>dequeue\<close> returns a request, the request is PROCESSING with
  \<open>started_at\<close> set; if the persistence write succeeded, the store's row for its id is
  the document of that request (next to the \<open>_id\<close> the store keeps for the row), with
  status \<open>processing\<close>, before \<open>dequeue\<close> returns;
  if the write failed, \<open>dequeue\<close> returns the request all the same and the store is as
  it was before the call.
\<close>

theorem dequeue_persisted_if_write_succeeds:
  assumes "dequeue now ok q = (Some r, q')"
  shows "status r = PROCESSING \<and> started_at r = Some now
         \<and> (ok \<longrightarrow> map_option without_id (find_one (request_id r) (collection q'))
                     = Some (to_dict r)
                   \<and> d_status (to_dict r) = ''processing'')
         \<and> (\<not> ok \<longrightarrow> collection q' = collection q)"
proof -
  from assms obtain x rest where
    r: "r = x\<lparr>status := PROCESSING, started_at := Some now\<rparr>"
    and q': "q' = persist_request ok r
                   (q\<lparr>waiting := rest,
                      processing := AList.update (request_id r) r (processing q)\<rparr>)"
    by (auto simp: dequeue_def Let_def split: if_splits list.splits)
  have a: "status r = PROCESSING" "started_at r = Some now" "d_status (to_dict r) = ''processing''"
    by (simp_all add: r)
  have b: "map_option without_id (find_one (request_id r) (collection q')) = Some (to_dict r)"
    if "ok"
    unfolding q' using that
    by (simp add: persist_request_collection find_one_update_one_upsert
             del: map_option_eq_Some)
  have c: "collection q' = collection q" if "\<not> ok"
    unfolding q' using that by (simp add: persist_request_collection)
  from a b c show ?thesis by blast
qed

theorem dequeue_persisted_if_write_succeeds_witness:
  "map_option d_status (find_one ''u'' (collection (snd (dequeue 2 True one_queued))))
     = Some ''processing''
   \<and> collection (snd (dequeue 2 False one_queued)) = collection one_queued"
proof -
  obtain r q' where t: "dequeue 2 True one_queued = (Some r, q')" and i: "request_id r = ''u''"
    unfolding one_queued_def
    by (simp add: new_queue_def enqueue_def dequeue_def Let_def)
  obtain r2 q2 where f: "dequeue 2 False one_queued = (Some r2, q2)"
    unfolding one_queued_def
    by (simp add: new_queue_def enqueue_def dequeue_def Let_def)
  from dequeue_persisted_if_write_succeeds [OF t] i
  have "map_option without_id (find_one ''u'' (collection q')) = Some (to_dict r)"
    and "d_status (to_dict r) = ''processing''"
    by simp_all
  then have "map_option d_status (find_one ''u'' (collection q')) = Some ''processing''"
    by (rule row_status)
  moreover from dequeue_persisted_if_write_succeeds [OF f]
  have "collection q2 = collection one_queued" by simp
  ultimately show ?thesis using t f by simp
qed

theorem dequeue_unpersisted_counterexample:
  "map_option request_id (fst (dequeue 2 False one_queued)) = Some ''u''
   \<and> map_option d_status (find_one ''u'' (collection (snd (dequeue 2 False one_queued))))
       = Some ''queued''"
  unfolding one_queued_def by code_simp

section \<open>The retry budget\<close>

text \<open>
  C2 at \<open>max_retries = 3\<close>, the budget \<open>enqueue\<close> gives every request. A worker that
  fails the request after every dispatch is handed it three times, not four: the third
  \<open>fail\<close> raises \<open>retry_count\<close> to 3, the test \<open>retry_count < max_retries\<close> fails, and
  the request ends FAILED, counted once in \<open>total_failed\<close>. Seven further turns
  dispatch nothing.
\<close>

theorem retry_budget_three_dispatches:
  "map max_retries (waiting one_queued) = [3]
   \<and> fst (dequeue_then_fail 100 True 10 one_queued) = [''u'', ''u'', ''u'']
   \<and> map_option d_status
        (find_one ''u'' (collection (snd (dequeue_then_fail 100 True 10 one_queued))))
       = Some ''failed''
   \<and> total_failed (snd (dequeue_then_fail 100 True 10 one_queued)) = 1
   \<and> waiting (snd (dequeue_then_fail 100 True 10 one_queued)) = []
   \<and> processing (snd (dequeue_then_fail 100 True 10 one_queued)) = []"
  unfolding one_queued_def by code_simp

lemma dequeue_then_fail_idle:
  "waiting q = [] \<Longrightarrow> dequeue_then_fail now ok n q = ([], q)"
  by (induction n) (simp_all add: dequeue_def)

lemma dequeue_fail_once:
  assumes "processing q = []" and "waiting q = [r]" and "1 \<le> max_concurrent q"
  shows "\<exists>r' q1. dequeue now ok q = (Some r', q1) \<and> request_id r' = request_id r
           \<and> processing (fail (request_id r') err now ok q1) = []
           \<and> max_concurrent (fail (request_id r') err now ok q1) = max_concurrent q
           \<and> (if retry_count r + 1 < max_retries r
               then \<exists>r2. waiting (fail (request_id r') err now ok q1) = [r2]
                          \<and> request_id r2 = request_id r
                          \<and> retry_count r2 = retry_count r + 1
                          \<and> max_retries r2 = max_retries r
               else waiting (fail (request_id r') err now ok q1) = []
                    \<and> total_failed (fail (request_id r') err now ok q1) = total_failed q + 1)"
  using assms by (simp add: dequeue_def fail_def Let_def AList.delete_eq)

text \<open>
  For any budget: a lone waiting request that is failed after every dispatch is
  dispatched \<open>max_retries - retry_count\<close> times, and once when that is less than one.
  From \<open>retry_count = 0\<close> that is \<open>max 1 b\<close> dispatches for a budget \<open>b\<close>, not
  \<open>b + 1\<close>.
\<close>

lemma always_failing_dispatches:
  assumes "processing q = []" and "waiting q = [r]" and "1 \<le> max_concurrent q"
  shows "fst (dequeue_then_fail now ok n q)
           = replicate (min n (nat (max 1 (max_retries r - retry_count r)))) (request_id r)"
  using assms
proof (induction n arbitrary: q r)
  case 0
  then show ?case by simp
next
  case (Suc n)
  from dequeue_fail_once [OF Suc.prems, of now ok "''boom''"]
  obtain r' q1 where d: "dequeue now ok q = (Some r', q1)" and i: "request_id r' = request_id r"
    and p: "processing (fail (request_id r') ''boom'' now ok q1) = []"
    and m: "max_concurrent (fail (request_id r') ''boom'' now ok q1) = max_concurrent q"
    and w: "if retry_count r + 1 < max_retries r
            then \<exists>r2. waiting (fail (request_id r') ''boom'' now ok q1) = [r2]
                       \<and> request_id r2 = request_id r
                       \<and> retry_count r2 = retry_count r + 1
                       \<and> max_retries r2 = max_retries r
            else waiting (fail (request_id r') ''boom'' now ok q1) = []
                 \<and> total_failed (fail (request_id r') ''boom'' now ok q1) = total_failed q + 1"
    by blast
  let ?q2 = "fail (request_id r') ''boom'' now ok q1"
  have s: "fst (dequeue_then_fail now ok (Suc n) q)
             = request_id r # fst (dequeue_then_fail now ok n ?q2)"
    using d i by (simp split: prod.splits)
  show ?case
  proof (cases "retry_count r + 1 < max_retries r")
    case True
    with w obtain r2 where w2: "waiting ?q2 = [r2]" and i2: "request_id r2 = request_id r"
      and c2: "retry_count r2 = retry_count r + 1" and b2: "max_retries r2 = max_retries r"
      by auto
    from Suc.prems(3) m have "1 \<le> max_concurrent ?q2" by simp
    from Suc.IH [OF p w2 this]
    have "fst (dequeue_then_fail now ok n ?q2)
            = replicate (min n (nat (max 1 (max_retries r - (retry_count r + 1))))) (request_id r)"
      by (simp add: i2 c2 b2)
    moreover from True
    have "Suc (min n (nat (max 1 (max_retries r - (retry_count r + 1)))))
            = min (Suc n) (nat (max 1 (max_retries r - retry_count r)))"
      by (auto simp: min_def max_def)
    ultimately show ?thesis using s by (metis replicate_Suc)
  next
    case False
    with w have "waiting ?q2 = []" by simp
    then have "fst (dequeue_then_fail now ok n ?q2) = []"
      by (simp add: dequeue_then_fail_idle)
    moreover from False have "min (Suc n) (nat (max 1 (max_retries r - retry_count r))) = Suc 0"
      by (auto simp: min_def max_def)
    ultimately show ?thesis using s by simp
  qed
qed

section \<open>Bounds on \<open>processing\<close> and \<open>waiting\<close>\<close>

lemma length_update_le: "length (AList.update k v al) \<le> Suc (length al)"
  by (induction al) auto

lemma length_delete_less:
  "map_of al k = Some v \<Longrightarrow> length (AList.delete k al) < length al"
  unfolding AList.delete_eq
  by (induction al) (auto simp: less_Suc_eq_le split: if_splits)

lemma step_config [simp]:
  "max_concurrent (snd (step q op)) = max_concurrent q"
  "max_waiting (snd (step q op)) = max_waiting q"
  "queue_model_name (snd (step q op)) = queue_model_name q"
proof -
  have f: "max_concurrent (foldl (recover_one wr) x ds) = max_concurrent x
           \<and> max_waiting (foldl (recover_one wr) x ds) = max_waiting x
           \<and> queue_model_name (foldl (recover_one wr) x ds) = queue_model_name x" for wr x ds
    by (induction ds arbitrary: x)
       (auto simp: recover_one_def Let_def split: option.splits)
  have h: "max_concurrent (handle_timeouts fin wr ks x) = max_concurrent x
           \<and> max_waiting (handle_timeouts fin wr ks x) = max_waiting x
           \<and> queue_model_name (handle_timeouts fin wr ks x) = queue_model_name x" for fin wr ks x
    by (induction ks arbitrary: x) (auto split: option.splits)
  show "max_concurrent (snd (step q op)) = max_concurrent q"
    by (cases op)
       (auto simp: enqueue_def dequeue_def complete_def fail_def Let_def f h
                   recover_from_crash_def recovery_loop_pass_def
             split: if_splits list.splits option.splits)
  show "max_waiting (snd (step q op)) = max_waiting q"
    by (cases op)
       (auto simp: enqueue_def dequeue_def complete_def fail_def Let_def f h
                   recover_from_crash_def recovery_loop_pass_def
             split: if_splits list.splits option.splits)
  show "queue_model_name (snd (step q op)) = queue_model_name q"
    by (cases op)
       (auto simp: enqueue_def dequeue_def complete_def fail_def Let_def f h
                   recover_from_crash_def recovery_loop_pass_def
             split: if_splits list.splits option.splits)
qed

lemma dequeue_lengths:
  "dequeue now ok q = (Some r, q') \<Longrightarrow>
     int (length (processing q)) < max_concurrent q
     \<and> length (waiting q) = Suc (length (waiting q'))
     \<and> length (processing q') \<le> Suc (length (processing q))"
  by (auto simp: dequeue_def Let_def length_update_le split: if_splits list.splits)

lemma dequeue_None: "dequeue now ok q = (None, q') \<Longrightarrow> q' = q"
  by (auto simp: dequeue_def Let_def split: if_splits list.splits)

lemma complete_lengths:
  "length (processing (complete rid res now ok q)) \<le> length (processing q)
   \<and> waiting (complete rid res now ok q) = waiting q"
  by (auto simp: complete_def Let_def AList.length_delete_le split: option.splits)

lemma fail_lengths:
  "length (waiting (fail rid err now ok q)) + length (processing (fail rid err now ok q))
     \<le> length (waiting q) + length (processing q)
   \<and> length (processing (fail rid err now ok q)) \<le> length (processing q)"
proof (cases "map_of (processing q) rid")
  case None
  then show ?thesis by (simp add: fail_def)
next
  case (Some r)
  from length_delete_less [OF this]
  have "Suc (length (AList.delete rid (processing q))) \<le> length (processing q)"
    by simp
  with Some show ?thesis
    by (simp add: fail_def Let_def)
qed

lemma step_bounds:
  assumes "is_queue_call op"
    and "int (length (processing q)) \<le> max_concurrent q"
    and "int (length (waiting q)) + int (length (processing q)) \<le> max_waiting q + max_concurrent q"
  shows "int (length (processing (snd (step q op)))) \<le> max_concurrent q
    \<and> int (length (waiting (snd (step q op)))) + int (length (processing (snd (step q op))))
           \<le> max_waiting q + max_concurrent q"
proof (cases op)
  case (Enqueue uid now ok pl task client prio tmo)
  with assms show ?thesis by (auto simp: enqueue_def Let_def)
next
  case (Dequeue now ok)
  show ?thesis
  proof (cases "dequeue now ok q")
    case (Pair r q')
    show ?thesis
    proof (cases r)
      case None
      with Pair Dequeue assms dequeue_None [of now ok q q'] show ?thesis by simp
    next
      case (Some x)
      with Pair dequeue_lengths [of now ok q x q'] Dequeue assms show ?thesis by simp
    qed
  qed
next
  case (Complete rid res now ok)
  with assms complete_lengths [of rid res now ok q] show ?thesis by simp
next
  case (Fail rid err now ok)
  with assms fail_lengths [of rid err now ok q] show ?thesis by simp
next
  case (RecoverFromCrash wr)
  with assms show ?thesis by simp
next
  case (RecoveryLoopPass clock fin wr)
  with assms show ?thesis by simp
qed

lemma step_waiting_bound:
  assumes "is_queue_call op" and "\<not> is_fail_call op"
    and "int (length (waiting q)) \<le> max_waiting q"
  shows "int (length (waiting (snd (step q op)))) \<le> max_waiting q"
  using assms
  by (cases op)
     (auto simp: enqueue_def dequeue_def complete_def Let_def split: list.splits option.splits)

lemma run_snoc:
  "run q (ops @ [op]) =
     (fst (run q ops) @ [fst (step (snd (run q ops)) op)], snd (step (snd (run q ops)) op))"
  by (induction ops arbitrary: q) (auto split: prod.splits)

lemma run_config [simp]:
  "max_concurrent (snd (run q ops)) = max_concurrent q"
  "max_waiting (snd (run q ops)) = max_waiting q"
  "queue_model_name (snd (run q ops)) = queue_model_name q"
  by (induction ops rule: rev_induct) (simp_all add: run_snoc)

lemma run_bounds:
  assumes "\<forall>op \<in> set ops. is_queue_call op"
    and "int (length (processing q)) \<le> max_concurrent q"
    and "int (length (waiting q)) + int (length (processing q)) \<le> max_waiting q + max_concurrent q"
  shows "int (length (processing (snd (run q ops)))) \<le> max_concurrent q
         \<and> int (length (waiting (snd (run q ops)))) + int (length (processing (snd (run q ops))))
             \<le> max_waiting q + max_concurrent q"
  using assms(1)
proof (induction ops rule: rev_induct)
  case Nil
  with assms show ?case by simp
next
  case (snoc op ops)
  then have ih: "int (length (processing (snd (run q ops)))) \<le> max_concurrent (snd (run q ops))"
    "int (length (waiting (snd (run q ops)))) + int (length (processing (snd (run q ops))))
      \<le> max_waiting (snd (run q ops)) + max_concurrent (snd (run q ops))"
    and c: "is_queue_call op"
    by simp_all
  from step_bounds [OF c ih] show ?case
    by (simp add: run_snoc)
qed

lemma run_waiting_bound:
  assumes "\<forall>op \<in> set ops. is_queue_call op \<and> \<not> is_fail_call op"
    and "int (length (waiting q)) \<le> max_waiting q"
  shows "int (length (waiting (snd (run q ops)))) \<le> max_waiting q"
  using assms(1)
proof (induction ops rule: rev_induct)
  case Nil
  with assms show ?case by simp
next
  case (snoc op ops)
  then have ih: "int (length (waiting (snd (run q ops)))) \<le> max_waiting (snd (run q ops))"
    and c: "is_queue_call op" "\<not> is_fail_call op"
    by simp_all
  from step_waiting_bound [OF c ih] show ?case
    by (simp add: run_snoc)
qed

text \<open>
  C1, as amended. For every configuration with non-negative \<open>max_concurrent\<close> and
  \<open>max_waiting\<close> and every finite sequence of enqueue, dequeue, complete and fail calls
  on a fresh queue, after every prefix of the sequence
  \<open>len(processing) \<le> max_concurrent\<close> and
  \<open>len(waiting) + len(processing) \<le> max_waiting + max_concurrent\<close>; and
  \<open>len(waiting) \<le> max_waiting\<close> as long as the prefix contains no \<open>fail\<close>. (A
  \<open>fail\<close> with retries left puts the request back into \<open>waiting\<close> without testing
  \<open>max_waiting\<close>.)
\<close>

theorem queue_bounds:
  assumes "0 \<le> mc" and "0 \<le> mw"
    and "\<forall>op \<in> set ops. is_queue_call op"
    and "q = snd (run (new_queue name mc mw store) (take n ops))"
  shows "int (length (processing q)) \<le> mc
         \<and> int (length (waiting q)) + int (length (processing q)) \<le> mw + mc
         \<and> ((\<forall>op \<in> set (take n ops). \<not> is_fail_call op) \<longrightarrow> int (length (waiting q)) \<le> mw)"
proof -
  let ?q0 = "new_queue name mc mw store"
  have c: "\<forall>op \<in> set (take n ops). is_queue_call op"
    using assms(3) by (auto dest: in_set_takeD)
  have i: "int (length (processing ?q0)) \<le> max_concurrent ?q0"
    "int (length (waiting ?q0)) + int (length (processing ?q0)) \<le> max_waiting ?q0 + max_concurrent ?q0"
    "int (length (waiting ?q0)) \<le> max_waiting ?q0"
    using assms(1,2) by (simp_all add: new_queue_def)
  have m: "max_concurrent ?q0 = mc" "max_waiting ?q0 = mw"
    by (simp_all add: new_queue_def)
  from run_bounds [OF c i(1,2)] m assms(4)
  have a: "int (length (processing q)) \<le> mc"
    "int (length (waiting q)) + int (length (processing q)) \<le> mw + mc"
    by simp_all
  have b: "int (length (waiting q)) \<le> mw" if "\<forall>op \<in> set (take n ops). \<not> is_fail_call op"
  proof -
    from c that have "\<forall>op \<in> set (take n ops). is_queue_call op \<and> \<not> is_fail_call op"
      by blast
    from run_waiting_bound [OF this i(3)] m assms(4) show ?thesis by simp
  qed
  from a b show ?thesis by blast
qed

theorem queue_bounds_witness:
  "int (length (processing overfull_run)) \<le> 1
   \<and> int (length (waiting overfull_run)) + int (length (processing overfull_run)) \<le> 1 + 1"
proof -
  let ?ops = "[Enqueue ''a'' 1 True ''p'' ''chat'' ''c'' NORMAL 300,
               Dequeue 2 True,
               Enqueue ''b'' 3 True ''p'' ''chat'' ''c'' NORMAL 300,
               Fail ''a'' ''boom'' 4 True]"
  have c: "\<forall>op \<in> set ?ops. is_queue_call op" by simp
  have e: "overfull_run = snd (run (new_queue ''B'' 1 1 []) (take 4 ?ops))"
    by (simp add: overfull_run_def)
  have z: "(0::int) \<le> 1" by simp
  from queue_bounds [OF z z c e] show ?thesis by simp
qed

theorem waiting_bound_counterexample:
  "max_waiting overfull_run = 1 \<and> length (waiting overfull_run) = 2
   \<and> \<not> int (length (waiting overfull_run)) \<le> max_waiting overfull_run"
  unfolding overfull_run_def by code_simp

section \<open>The timeout pass\<close>

lemma set_update_subset: "set (AList.update k v al) \<subseteq> insert (k, v) (set al)"
  by (induction al) auto

lemma set_delete_subset: "set (AList.delete k al) \<subseteq> set al"
  by (auto simp: AList.delete_eq)

lemma recover_fold_processing [simp]:
  "processing (foldl (recover_one wr) q ds) = processing q"
  by (induction ds arbitrary: q) (auto simp: recover_one_def Let_def split: option.splits)

lemma from_dict_status:
  "from_dict d = Some r \<Longrightarrow> cursor_matches name d \<Longrightarrow> status r = QUEUED \<or> status r = PROCESSING"
  by (auto simp: from_dict_def cursor_matches_def RequestStatus_of_def
           split: option.splits if_splits)

lemma recover_fold_waiting_queued:
  "\<forall>r \<in> set (waiting q). status r = QUEUED \<Longrightarrow> \<forall>d \<in> set ds. cursor_matches name d \<Longrightarrow>
   \<forall>r \<in> set (waiting (foldl (recover_one wr) q ds)). status r = QUEUED"
proof (induction ds arbitrary: q)
  case Nil
  then show ?case by simp
next
  case (Cons d ds)
  have "\<forall>r \<in> set (waiting (recover_one wr q d)). status r = QUEUED"
  proof (cases "from_dict d")
    case None
    with Cons.prems show ?thesis by (simp add: recover_one_def)
  next
    case (Some r)
    with Cons.prems from_dict_status [of d r name]
    have "status (reset_if_processing r) = QUEUED"
      by (auto simp: reset_if_processing_def)
    with Some Cons.prems show ?thesis
      by (auto simp: recover_one_def Let_def)
  qed
  with Cons show ?case by simp
qed

lemma handle_timeouts_processing:
  "distinct ks \<Longrightarrow> set ks \<subseteq> fst ` set (processing q) \<Longrightarrow>
   processing (handle_timeouts fin wr ks q) = filter (\<lambda>(k, r). k \<notin> set ks) (processing q)
   \<and> total_timeout (handle_timeouts fin wr ks q) = total_timeout q + int (length ks)
   \<and> waiting (handle_timeouts fin wr ks q) = waiting q"
proof (induction ks arbitrary: q)
  case Nil
  then show ?case by simp
next
  case (Cons k ks)
  from Cons.prems obtain r where r: "map_of (processing q) k = Some r"
    by (cases "map_of (processing q) k") (auto simp: map_of_eq_None_iff)
  let ?q1 = "persist_request (wr k) (r\<lparr>status := TIMEOUT, completed_at := Some (fin k)\<rparr>)
               (q\<lparr>processing := AList.delete k (processing q),
                   total_timeout := total_timeout q + 1\<rparr>)"
  have p1: "processing ?q1 = filter (\<lambda>(k', r). k' \<noteq> k) (processing q)"
    by (auto simp: AList.delete_eq intro: filter_cong)
  from Cons.prems have "set ks \<subseteq> fst ` set (processing ?q1)"
    unfolding p1 by force
  with Cons.IH [of ?q1] Cons.prems
  have "processing (handle_timeouts fin wr ks ?q1) = filter (\<lambda>(k, r). k \<notin> set ks) (processing ?q1)
   \<and> total_timeout (handle_timeouts fin wr ks ?q1) = total_timeout ?q1 + int (length ks)
   \<and> waiting (handle_timeouts fin wr ks ?q1) = waiting ?q1"
    by simp
  moreover have "filter (\<lambda>(k, r). k \<notin> set ks) (processing ?q1)
                   = filter (\<lambda>(k', r). k' \<notin> set (k # ks)) (processing q)"
    unfolding p1 by (auto intro: filter_cong)
  ultimately show ?case using r by simp
qed

lemma find_one_update_one_upsert_other:
  "rid \<noteq> rid' \<Longrightarrow> d_request_id doc = rid' \<Longrightarrow>
   find_one rid (update_one_upsert oid rid' doc s) = find_one rid s"
  by (induction s) auto

lemma handle_timeouts_other_row:
  "k \<notin> set ks \<Longrightarrow> \<forall>(k', r) \<in> set (processing q). request_id r = k' \<Longrightarrow>
   find_one k (collection (handle_timeouts fin wr ks q)) = find_one k (collection q)"
proof (induction ks arbitrary: q)
  case Nil
  then show ?case by simp
next
  case (Cons k' ks)
  show ?case
  proof (cases "map_of (processing q) k'")
    case None
    then show ?thesis by simp
  next
    case (Some r)
    then have "(k', r) \<in> set (processing q)" by (rule map_of_SomeD)
    with Cons.prems have i: "request_id r = k'" by auto
    let ?q1 = "persist_request (wr k') (r\<lparr>status := TIMEOUT, completed_at := Some (fin k')\<rparr>)
               (q\<lparr>processing := AList.delete k' (processing q),
                   total_timeout := total_timeout q + 1\<rparr>)"
    have "\<forall>(k', r) \<in> set (processing ?q1). request_id r = k'"
      using Cons.prems(2) set_delete_subset [of k' "processing q"] by auto
    with Cons.IH [of ?q1] Cons.prems(1)
    have "find_one k (collection (handle_timeouts fin wr ks ?q1)) = find_one k (collection ?q1)"
      by simp
    moreover from Cons.prems(1) i have "find_one k (collection ?q1) = find_one k (collection q)"
      by (auto simp: persist_request_collection find_one_update_one_upsert_other)
    ultimately show ?thesis using Some by simp
  qed
qed

lemma handle_timeouts_row:
  "distinct ks \<Longrightarrow> k \<in> set ks \<Longrightarrow> set ks \<subseteq> fst ` set (processing q) \<Longrightarrow>
   distinct (map fst (processing q)) \<Longrightarrow>
   \<forall>(k', r) \<in> set (processing q). request_id r = k' \<Longrightarrow>
   map_of (processing q) k = Some r \<Longrightarrow> wr k \<Longrightarrow>
   map_option without_id (find_one k (collection (handle_timeouts fin wr ks q)))
     = Some (to_dict (r\<lparr>status := TIMEOUT, completed_at := Some (fin k)\<rparr>))"
proof (induction ks arbitrary: q)
  case Nil
  then show ?case by simp
next
  case (Cons k' ks)
  from Cons.prems(3) obtain r' where r': "map_of (processing q) k' = Some r'"
    by (cases "map_of (processing q) k'") (auto simp: map_of_eq_None_iff)
  then have "(k', r') \<in> set (processing q)" by (rule map_of_SomeD)
  with Cons.prems(5) have i': "request_id r' = k'" by auto
  let ?q1 = "persist_request (wr k') (r'\<lparr>status := TIMEOUT, completed_at := Some (fin k')\<rparr>)
               (q\<lparr>processing := AList.delete k' (processing q),
                   total_timeout := total_timeout q + 1\<rparr>)"
  have p1: "processing ?q1 = AList.delete k' (processing q)" by simp
  have ids: "\<forall>(k', r) \<in> set (processing ?q1). request_id r = k'"
    using Cons.prems(5) set_delete_subset [of k' "processing q"] by auto
  show ?case
  proof (cases "k = k'")
    case True
    with Cons.prems r' have rr: "r' = r" by simp
    from True Cons.prems(1) have "k \<notin> set ks" by simp
    from handle_timeouts_other_row [OF this ids]
    have "find_one k (collection (handle_timeouts fin wr ks ?q1)) = find_one k (collection ?q1)" .
    moreover from True rr i' Cons.prems(7)
    have "map_option without_id (find_one k (collection ?q1))
            = Some (to_dict (r\<lparr>status := TIMEOUT, completed_at := Some (fin k)\<rparr>))"
      by (simp add: persist_request_collection find_one_update_one_upsert)
    ultimately show ?thesis using r' by simp
  next
    case False
    with Cons.prems have k: "k \<in> set ks" and d: "distinct ks" by auto
    from Cons.prems(1,3) have s: "set ks \<subseteq> fst ` set (processing ?q1)"
      unfolding p1 by (force simp: AList.delete_eq)
    from Cons.prems(4) have dd: "distinct (map fst (processing ?q1))"
      unfolding p1 by (rule AList.distinct_delete)
    from False Cons.prems(6) have m: "map_of (processing ?q1) k = Some r"
      unfolding p1 by simp
    from Cons.IH [of ?q1] d k s dd ids m Cons.prems(7) r' show ?thesis by simp
  qed
qed

lemma step_processing_ok: "processing_ok q \<Longrightarrow> processing_ok (snd (step q op))"
proof (cases op)
  case (Enqueue uid now ok pl task client prio tmo)
  assume "processing_ok q"
  with Enqueue show ?thesis
    by (auto simp: processing_ok_def enqueue_def Let_def)
next
  case (Dequeue now ok)
  assume a: "processing_ok q"
  show ?thesis
  proof (cases "int (length (processing q)) \<ge> max_concurrent q \<or> waiting q = []")
    case True
    with a Dequeue show ?thesis
      by (auto simp: dequeue_def split: list.splits)
  next
    case False
    then obtain r rest where w: "waiting q = r # rest" by (cases "waiting q") auto
    let ?r = "r\<lparr>status := PROCESSING, started_at := Some now\<rparr>"
    have e: "snd (step q op) = persist_request ok ?r
               (q\<lparr>waiting := rest, processing := AList.update (request_id ?r) ?r (processing q)\<rparr>)"
      using False w Dequeue by (simp add: dequeue_def Let_def)
    from a have "distinct (map fst (AList.update (request_id ?r) ?r (processing q)))"
      by (simp add: processing_ok_def AList.distinct_update)
    moreover from a set_update_subset [of "request_id ?r" ?r "processing q"]
    have "\<forall>(k, x) \<in> set (AList.update (request_id ?r) ?r (processing q)).
            request_id x = k \<and> status x = PROCESSING \<and> started_at x \<noteq> None"
      by (auto simp: processing_ok_def)
    moreover from a w have "\<forall>x \<in> set rest. status x = QUEUED"
      by (simp add: processing_ok_def)
    ultimately show ?thesis
      unfolding e processing_ok_def by simp
  qed
next
  case (Complete rid res now ok)
  assume a: "processing_ok q"
  with Complete set_delete_subset [of rid "processing q"] show ?thesis
    by (auto simp: processing_ok_def complete_def Let_def AList.distinct_delete
             split: option.splits)
next
  case (Fail rid err now ok)
  assume a: "processing_ok q"
  with Fail set_delete_subset [of rid "processing q"] show ?thesis
    by (auto simp: processing_ok_def fail_def Let_def AList.distinct_delete
             split: option.splits)
next
  case (RecoverFromCrash wr)
  assume a: "processing_ok q"
  then have "\<forall>r \<in> set (waiting q). status r = QUEUED"
    by (simp add: processing_ok_def)
  moreover have "\<forall>d \<in> set (filter (cursor_matches (queue_model_name q)) (collection q)).
                   cursor_matches (queue_model_name q) d"
    by simp
  ultimately have "\<forall>r \<in> set (waiting (recover_from_crash wr q)). status r = QUEUED"
    unfolding recover_from_crash_def by (rule recover_fold_waiting_queued)
  with a RecoverFromCrash show ?thesis
    by (simp add: processing_ok_def recover_from_crash_def)
next
  case (RecoveryLoopPass clock fin wr)
  assume a: "processing_ok q"
  then have d: "distinct (timeout_ids clock q)"
    and s: "set (timeout_ids clock q) \<subseteq> fst ` set (processing q)"
    by (auto simp: processing_ok_def timeout_ids_def distinct_map_filter)
  from handle_timeouts_processing [OF d s, of fin wr] a RecoveryLoopPass show ?thesis
    by (auto simp: processing_ok_def recovery_loop_pass_def distinct_map_filter)
qed

lemma run_processing_ok: "processing_ok q \<Longrightarrow> processing_ok (snd (run q ops))"
  by (induction ops rule: rev_induct) (simp_all add: run_snoc step_processing_ok)

lemma new_queue_processing_ok: "processing_ok (new_queue name mc mw store)"
  by (simp add: processing_ok_def new_queue_def)

text \<open>
  C7. Let \<open>q\<close> be any queue built by calls on a fresh queue, whatever the store held,
  and let one pass of the recovery loop run on it. Every request in \<open>waiting\<close> is
  QUEUED and is left alone. A request in \<open>processing\<close> is picked as timed out exactly
  when its status is PROCESSING and the clock read for it minus \<open>started_at\<close> exceeds
  \<open>timeout_seconds\<close>. The pass removes exactly the picked requests from
  \<open>processing\<close>, persists each (when its write succeeds; the row keeps its \<open>_id\<close>)
  with status TIMEOUT and \<open>completed_at\<close> set, adds their number to \<open>total_timeout\<close>, and leaves \<open>waiting\<close>
  as it was: nothing is re-queued.
\<close>

theorem timeout_pass:
  assumes "q = snd (run (new_queue name mc mw store) ops)"
    and "q' = recovery_loop_pass clock fin wr q"
  shows "(\<forall>r \<in> set (waiting q). status r = QUEUED)
    \<and> (\<forall>k r. (k, r) \<in> set (processing q) \<longrightarrow>
          (k \<in> set (timeout_ids clock q) \<longleftrightarrow>
             status r = PROCESSING
             \<and> (\<exists>s. started_at r = Some s \<and> clock k - s > timeout_seconds r * 1000000))
          \<and> (k \<in> set (timeout_ids clock q) \<and> wr k \<longrightarrow>
               map_option without_id (find_one k (collection q'))
                 = Some (to_dict (r\<lparr>status := TIMEOUT, completed_at := Some (fin k)\<rparr>))))
    \<and> processing q' = filter (\<lambda>(k, r). k \<notin> set (timeout_ids clock q)) (processing q)
    \<and> total_timeout q' = total_timeout q + int (length (timeout_ids clock q))
    \<and> waiting q' = waiting q"
proof -
  have ok: "processing_ok q"
    unfolding assms(1) by (rule run_processing_ok [OF new_queue_processing_ok])
  then have dk: "distinct (map fst (processing q))"
    and ids: "\<forall>(k', r) \<in> set (processing q). request_id r = k'"
    and st: "\<forall>(k', r) \<in> set (processing q). status r = PROCESSING"
    and wq: "\<forall>r \<in> set (waiting q). status r = QUEUED"
    by (auto simp: processing_ok_def)
  have d: "distinct (timeout_ids clock q)"
    using dk by (simp add: timeout_ids_def distinct_map_filter)
  have s: "set (timeout_ids clock q) \<subseteq> fst ` set (processing q)"
    by (auto simp: timeout_ids_def)
  have mem: "k \<in> set (timeout_ids clock q) \<longleftrightarrow> is_timeout (clock k) r"
    if "(k, r) \<in> set (processing q)" for k r
  proof
    assume "k \<in> set (timeout_ids clock q)"
    then obtain r' where "(k, r') \<in> set (processing q)" and t: "is_timeout (clock k) r'"
      by (auto simp: timeout_ids_def)
    with that dk have "r' = r"
      by (metis map_of_is_SomeI option.inject)
    with t show "is_timeout (clock k) r" by simp
  next
    assume "is_timeout (clock k) r"
    with that show "k \<in> set (timeout_ids clock q)"
      by (force simp: timeout_ids_def)
  qed
  have a: "k \<in> set (timeout_ids clock q) \<longleftrightarrow>
             status r = PROCESSING
             \<and> (\<exists>s. started_at r = Some s \<and> clock k - s > timeout_seconds r * 1000000)"
    if "(k, r) \<in> set (processing q)" for k r
    using mem [OF that] st that
    by (auto simp: is_timeout_def split: option.splits)
  have b: "map_option without_id (find_one k (collection q'))
             = Some (to_dict (r\<lparr>status := TIMEOUT, completed_at := Some (fin k)\<rparr>))"
    if "(k, r) \<in> set (processing q)" and "k \<in> set (timeout_ids clock q)" and "wr k" for k r
  proof -
    from that(1) dk have "map_of (processing q) k = Some r" by simp
    with handle_timeouts_row [of "timeout_ids clock q" k q r wr fin] d that(2,3) s dk ids
    show ?thesis by (simp add: assms(2) recovery_loop_pass_def)
  qed
  from handle_timeouts_processing [OF d s, of fin wr]
  have c: "processing q' = filter (\<lambda>(k, r). k \<notin> set (timeout_ids clock q)) (processing q)"
    "total_timeout q' = total_timeout q + int (length (timeout_ids clock q))"
    "waiting q' = waiting q"
    by (simp_all add: assms(2) recovery_loop_pass_def)
  from wq a b c show ?thesis by blast
qed
theorem timeout_pass_witness:
  "timeout_ids (\<lambda>k. 20000000) two_processing = [''a'']
   \<and> total_timeout (recovery_loop_pass (\<lambda>k. 20000000) (\<lambda>k. 20000001) (\<lambda>k. True) two_processing) = 1
   \<and> map fst (processing (recovery_loop_pass (\<lambda>k. 20000000) (\<lambda>k. 20000001) (\<lambda>k. True) two_processing))
       = [''b'']
   \<and> waiting (recovery_loop_pass (\<lambda>k. 20000000) (\<lambda>k. 20000001) (\<lambda>k. True) two_processing) = []"
proof -
  have e: "two_processing =
     snd (run (new_queue ''B'' 2 10 [])
            [Enqueue ''a'' 1 True ''p'' ''chat'' ''c'' NORMAL 5,
             Enqueue ''b'' 2 True ''p'' ''chat'' ''c'' NORMAL 300,
             Dequeue 10 True, Dequeue 10 True])"
    by (simp add: two_processing_def)
  have i: "timeout_ids (\<lambda>k. 20000000) two_processing = [''a'']"
    unfolding two_processing_def by code_simp
  have t: "total_timeout two_processing = 0"
    unfolding two_processing_def by code_simp
  have w: "waiting two_processing = []"
    unfolding two_processing_def by code_simp
  have p: "map fst (filter (\<lambda>(k, r). k \<notin> set [''a'']) (processing two_processing)) = [''b'']"
    unfolding two_processing_def by code_simp
  from timeout_pass [OF e refl, where clock = "\<lambda>k. 20000000" and fin = "\<lambda>k. 20000001"
                         and wr = "\<lambda>k. True"] i t w p
  show ?thesis by simp
qed

section \<open>Crash recovery and the \<open>_id\<close> key\<close>

lemma from_dict_with_id: "d_id d \<noteq> None \<Longrightarrow> from_dict d = None"
  by (auto simp: from_dict_def split: option.splits)

lemma from_dict_to_dict: "from_dict (to_dict r) = Some r"
  by (cases "priority r"; cases "status r")
     (simp_all add: from_dict_def to_dict_def Priority_of_def RequestStatus_of_def)

lemma recover_fold_inert:
  "\<forall>d \<in> set ds. d_id d \<noteq> None \<Longrightarrow> foldl (recover_one wr) q ds = q"
  by (induction ds) (simp_all add: recover_one_def from_dict_with_id)

lemma recover_from_crash_inert:
  "\<forall>d \<in> set (collection q). d_id d \<noteq> None \<Longrightarrow> recover_from_crash wr q = q"
  unfolding recover_from_crash_def by (rule recover_fold_inert) simp

lemma update_one_upsert_keeps_id:
  "\<forall>d \<in> set s. d_id d \<noteq> None \<Longrightarrow> \<forall>d \<in> set (update_one_upsert oid rid doc s). d_id d \<noteq> None"
  by (induction s) auto

text \<open>
  C3. The documents of the collection all carry \<open>_id\<close>, so \<open>from_dict\<close> rejects every
  document the recovery scan reads and the \<open>except\<close> clause skips it: a run of
  \<open>recover_from_crash\<close> changes neither \<open>waiting\<close> nor the store, whatever they
  hold. Hence two runs in a row, from any such store and any in-memory state, leave the
  same waiting queue and the same store contents as one run.
\<close>

theorem recovery_twice:
  assumes "\<forall>d \<in> set (collection q). d_id d \<noteq> None"
  shows "waiting (recover_from_crash wr' (recover_from_crash wr q))
           = waiting (recover_from_crash wr q)
         \<and> collection (recover_from_crash wr' (recover_from_crash wr q))
           = collection (recover_from_crash wr q)
         \<and> recover_from_crash wr q = q"
proof -
  from assms have "recover_from_crash wr q = q"
    by (rule recover_from_crash_inert)
  moreover from assms have "recover_from_crash wr' q = q"
    by (rule recover_from_crash_inert)
  ultimately show ?thesis by simp
qed

theorem recovery_twice_witness:
  "map d_id (collection restarted_queue) = [Some 0]
   \<and> map d_status (collection restarted_queue) = [''queued'']
   \<and> waiting (recover_from_crash (\<lambda>k. True) (recover_from_crash (\<lambda>k. True) restarted_queue)) = []
   \<and> collection (recover_from_crash (\<lambda>k. True) (recover_from_crash (\<lambda>k. True) restarted_queue))
       = collection restarted_queue"
proof -
  have i: "map d_id (collection restarted_queue) = [Some 0]"
    and s: "map d_status (collection restarted_queue) = [''queued'']"
    unfolding restarted_queue_def one_queued_def by code_simp+
  have a: "\<forall>d \<in> set (collection restarted_queue). d_id d \<noteq> None"
    unfolding restarted_queue_def one_queued_def by code_simp
  have w: "waiting restarted_queue = []"
    by (simp add: restarted_queue_def new_queue_def)
  from recovery_twice [OF a, of "\<lambda>k. True" "\<lambda>k. True"] i s w show ?thesis by simp
qed

section \<open>Terminal rows and \<open>completed_at\<close>\<close>

lemma RequestStatus_of_status_value [simp]: "RequestStatus_of (status_value s) = Some s"
  by (cases s) (simp_all add: RequestStatus_of_def)

lemma terminal_row_to_dict [simp]: "terminal_row (to_dict r) = terminal (status r)"
  by (simp add: terminal_row_def)

lemma update_one_upsert_rows:
  assumes "\<forall>d \<in> set s. d_id d \<noteq> None \<and> (terminal_row d \<longrightarrow> d_completed_at d \<noteq> None)"
    and "terminal_row doc \<longrightarrow> d_completed_at doc \<noteq> None"
  shows "\<forall>d \<in> set (update_one_upsert oid rid doc s).
           d_id d \<noteq> None \<and> (terminal_row d \<longrightarrow> d_completed_at d \<noteq> None)"
  using assms by (induction s) (auto simp: terminal_row_def)

lemma persist_request_rows:
  assumes "\<forall>d \<in> set (collection q). d_id d \<noteq> None \<and> (terminal_row d \<longrightarrow> d_completed_at d \<noteq> None)"
    and "terminal (status r) \<longrightarrow> completed_at r \<noteq> None"
  shows "\<forall>d \<in> set (collection (persist_request ok r q)).
           d_id d \<noteq> None \<and> (terminal_row d \<longrightarrow> d_completed_at d \<noteq> None)"
proof (cases ok)
  case True
  from assms(2) have "terminal_row (to_dict r) \<longrightarrow> d_completed_at (to_dict r) \<noteq> None"
    by (simp add: to_dict_def terminal_row_def)
  from update_one_upsert_rows [OF assms(1) this] True show ?thesis
    by (simp add: persist_request_collection)
next
  case False
  with assms(1) show ?thesis by (simp add: persist_request_collection)
qed

lemma handle_timeouts_rows:
  "\<forall>d \<in> set (collection q). d_id d \<noteq> None \<and> (terminal_row d \<longrightarrow> d_completed_at d \<noteq> None) \<Longrightarrow>
   \<forall>d \<in> set (collection (handle_timeouts fin wr ks q)).
     d_id d \<noteq> None \<and> (terminal_row d \<longrightarrow> d_completed_at d \<noteq> None)"
proof (induction ks arbitrary: q)
  case Nil
  then show ?case by simp
next
  case (Cons k ks)
  show ?case
  proof (cases "map_of (processing q) k")
    case None
    with Cons.prems show ?thesis by simp
  next
    case (Some r)
    let ?q0 = "q\<lparr>processing := AList.delete k (processing q),
                  total_timeout := total_timeout q + 1\<rparr>"
    let ?r = "r\<lparr>status := TIMEOUT, completed_at := Some (fin k)\<rparr>"
    from Cons.prems
    have "\<forall>d \<in> set (collection ?q0). d_id d \<noteq> None \<and> (terminal_row d \<longrightarrow> d_completed_at d \<noteq> None)"
      by simp
    moreover have "terminal (status ?r) \<longrightarrow> completed_at ?r \<noteq> None" by simp
    ultimately
    have "\<forall>d \<in> set (collection (persist_request (wr k) ?r ?q0)).
            d_id d \<noteq> None \<and> (terminal_row d \<longrightarrow> d_completed_at d \<noteq> None)"
      by (rule persist_request_rows)
    from Cons.IH [OF this] Some show ?thesis by simp
  qed
qed

lemma step_rows:
  assumes "\<forall>d \<in> set (collection q). d_id d \<noteq> None \<and> (terminal_row d \<longrightarrow> d_completed_at d \<noteq> None)"
  shows "\<forall>d \<in> set (collection (snd (step q op))).
           d_id d \<noteq> None \<and> (terminal_row d \<longrightarrow> d_completed_at d \<noteq> None)"
proof (cases op)
  case (Enqueue uid now ok pl task client prio tmo)
  show ?thesis
  proof (cases "int (length (waiting q)) \<ge> max_waiting q")
    case True
    with Enqueue assms show ?thesis by (simp add: enqueue_def)
  next
    case False
    let ?r = "\<lparr> request_id = uid, model_name = queue_model_name q,
                 task_type = task, client_id = client, payload = pl,
                 priority = prio, status = QUEUED, created_at = now,
                 started_at = None, completed_at = None,
                 timeout_seconds = tmo, retry_count = 0, max_retries = 3,
                 error = None, result = None \<rparr>"
    let ?q1 = "q\<lparr>waiting := insert_by_priority ?r (waiting q)\<rparr>"
    from assms
    have "\<forall>d \<in> set (collection ?q1). d_id d \<noteq> None \<and> (terminal_row d \<longrightarrow> d_completed_at d \<noteq> None)"
      by simp
    moreover have "terminal (status ?r) \<longrightarrow> completed_at ?r \<noteq> None" by simp
    ultimately
    have "\<forall>d \<in> set (collection (persist_request ok ?r ?q1)).
            d_id d \<noteq> None \<and> (terminal_row d \<longrightarrow> d_completed_at d \<noteq> None)"
      by (rule persist_request_rows)
    with False Enqueue show ?thesis by (simp add: enqueue_def Let_def)
  qed
next
  case (Dequeue now ok)
  show ?thesis
  proof (cases "int (length (processing q)) \<ge> max_concurrent q \<or> waiting q = []")
    case True
    with Dequeue assms show ?thesis by (auto simp: dequeue_def split: list.splits)
  next
    case False
    then obtain x rest where w: "waiting q = x # rest" by (cases "waiting q") auto
    let ?r = "x\<lparr>status := PROCESSING, started_at := Some now\<rparr>"
    let ?q1 = "q\<lparr>waiting := rest, processing := AList.update (request_id ?r) ?r (processing q)\<rparr>"
    from assms
    have "\<forall>d \<in> set (collection ?q1). d_id d \<noteq> None \<and> (terminal_row d \<longrightarrow> d_completed_at d \<noteq> None)"
      by simp
    moreover have "terminal (status ?r) \<longrightarrow> completed_at ?r \<noteq> None" by simp
    ultimately
    have "\<forall>d \<in> set (collection (persist_request ok ?r ?q1)).
            d_id d \<noteq> None \<and> (terminal_row d \<longrightarrow> d_completed_at d \<noteq> None)"
      by (rule persist_request_rows)
    with False w Dequeue show ?thesis by (simp add: dequeue_def Let_def)
  qed
next
  case (Complete rid res now ok)
  show ?thesis
  proof (cases "map_of (processing q) rid")
    case None
    with Complete assms show ?thesis by (simp add: complete_def)
  next
    case (Some r)
    let ?r = "r\<lparr>status := COMPLETED, completed_at := Some now, result := res\<rparr>"
    let ?q1 = "q\<lparr>processing := AList.delete rid (processing q),
                  total_processed := total_processed q + 1\<rparr>"
    from assms
    have "\<forall>d \<in> set (collection ?q1). d_id d \<noteq> None \<and> (terminal_row d \<longrightarrow> d_completed_at d \<noteq> None)"
      by simp
    moreover have "terminal (status ?r) \<longrightarrow> completed_at ?r \<noteq> None" by simp
    ultimately
    have "\<forall>d \<in> set (collection (persist_request ok ?r ?q1)).
            d_id d \<noteq> None \<and> (terminal_row d \<longrightarrow> d_completed_at d \<noteq> None)"
      by (rule persist_request_rows)
    with Some Complete show ?thesis by (simp add: complete_def Let_def)
  qed
next
  case (Fail rid err now ok)
  show ?thesis
  proof (cases "map_of (processing q) rid")
    case None
    with Fail assms show ?thesis by (simp add: fail_def)
  next
    case (Some r)
    let ?q1 = "q\<lparr>processing := AList.delete rid (processing q)\<rparr>"
    let ?r = "r\<lparr>error := Some err, retry_count := retry_count r + 1\<rparr>"
    show ?thesis
    proof (cases "retry_count ?r < max_retries ?r")
      case True
      let ?r' = "?r\<lparr>status := QUEUED, started_at := None\<rparr>"
      let ?q2 = "?q1\<lparr>waiting := insert_by_priority ?r' (waiting ?q1)\<rparr>"
      from assms
      have "\<forall>d \<in> set (collection ?q2). d_id d \<noteq> None \<and> (terminal_row d \<longrightarrow> d_completed_at d \<noteq> None)"
        by simp
      moreover have "terminal (status ?r') \<longrightarrow> completed_at ?r' \<noteq> None" by simp
      ultimately
      have "\<forall>d \<in> set (collection (persist_request ok ?r' ?q2)).
              d_id d \<noteq> None \<and> (terminal_row d \<longrightarrow> d_completed_at d \<noteq> None)"
        by (rule persist_request_rows)
      with True Some Fail show ?thesis by (simp add: fail_def Let_def)
    next
      case False
      let ?r' = "?r\<lparr>status := FAILED, completed_at := Some now\<rparr>"
      let ?q2 = "?q1\<lparr>total_failed := total_failed ?q1 + 1\<rparr>"
      from assms
      have "\<forall>d \<in> set (collection ?q2). d_id d \<noteq> None \<and> (terminal_row d \<longrightarrow> d_completed_at d \<noteq> None)"
        by simp
      moreover have "terminal (status ?r') \<longrightarrow> completed_at ?r' \<noteq> None" by simp
      ultimately
      have "\<forall>d \<in> set (collection (persist_request ok ?r' ?q2)).
              d_id d \<noteq> None \<and> (terminal_row d \<longrightarrow> d_completed_at d \<noteq> None)"
        by (rule persist_request_rows)
      with False Some Fail show ?thesis by (simp add: fail_def Let_def)
    qed
  qed
next
  case (RecoverFromCrash wr)
  from assms have "recover_from_crash wr q = q"
    by (intro recover_from_crash_inert) simp
  with RecoverFromCrash assms show ?thesis by simp
next
  case (RecoveryLoopPass clock fin wr)
  with handle_timeouts_rows [OF assms, of fin wr "timeout_ids clock q"] show ?thesis
    by (simp add: recovery_loop_pass_def)
qed

lemma run_rows:
  assumes "\<forall>d \<in> set (collection q). d_id d \<noteq> None \<and> (terminal_row d \<longrightarrow> d_completed_at d \<noteq> None)"
  shows "\<forall>d \<in> set (collection (snd (run q ops))).
           d_id d \<noteq> None \<and> (terminal_row d \<longrightarrow> d_completed_at d \<noteq> None)"
proof (induction ops rule: rev_induct)
  case Nil
  with assms show ?case by simp
next
  case (snoc op ops)
  from step_rows [OF snoc, of op] show ?case by (simp add: run_snoc)
qed

text \<open>
  The transitions into a terminal status: \<open>complete\<close>, and \<open>fail\<close> when the budget
  is used up, write the row with \<open>completed_at\<close> set (the timeout pass is covered
  above).
\<close>

lemma complete_sets_completed_at:
  assumes "map_of (processing q) rid = Some r" and "request_id r = rid"
  shows "map_option without_id (find_one rid (collection (complete rid res now True q)))
           = Some (to_dict (r\<lparr>status := COMPLETED, completed_at := Some now, result := res\<rparr>))"
  using assms
  by (simp add: complete_def Let_def persist_request_collection find_one_update_one_upsert
           del: map_option_eq_Some)

lemma fail_sets_completed_at:
  assumes "map_of (processing q) rid = Some r" and "request_id r = rid"
    and "\<not> retry_count r + 1 < max_retries r"
  shows "map_option without_id (find_one rid (collection (fail rid err now True q)))
           = Some (to_dict (r\<lparr>error := Some err, retry_count := retry_count r + 1,
                              status := FAILED, completed_at := Some now\<rparr>))"
  using assms
  by (simp add: fail_def Let_def persist_request_collection find_one_update_one_upsert
           del: map_option_eq_Some)

text \<open>
  C4. Take a store whose documents carry \<open>_id\<close> and whose rows in a terminal status
  (COMPLETED, FAILED, TIMEOUT, CANCELLED) all have \<open>completed_at\<close> set, for instance an
  empty one, and any sequence of enqueue, dequeue, complete, fail, timeout passes and
  crash recoveries on a queue started on it, with any of the persistence writes failing.
  Afterwards every row of the store in a terminal status has \<open>completed_at\<close> set, and
  no request held in \<open>waiting\<close> or \<open>processing\<close> is in a terminal status. The
  recovery never gets as far as marking a row FAILED: \<open>from_dict\<close> rejects every
  document it scans.
\<close>

theorem terminal_rows_have_completed_at:
  assumes "\<forall>d \<in> set store. d_id d \<noteq> None \<and> (terminal_row d \<longrightarrow> d_completed_at d \<noteq> None)"
    and "q = snd (run (new_queue name mc mw store) ops)"
  shows "(\<forall>d \<in> set (collection q). terminal_row d \<longrightarrow> d_completed_at d \<noteq> None)
         \<and> (\<forall>r \<in> set (waiting q). \<not> terminal (status r))
         \<and> (\<forall>(k, r) \<in> set (processing q). \<not> terminal (status r))"
proof -
  from assms(1)
  have "\<forall>d \<in> set (collection (new_queue name mc mw store)).
          d_id d \<noteq> None \<and> (terminal_row d \<longrightarrow> d_completed_at d \<noteq> None)"
    by (simp add: new_queue_def)
  from run_rows [OF this, of ops]
  have a: "\<forall>d \<in> set (collection q). terminal_row d \<longrightarrow> d_completed_at d \<noteq> None"
    by (simp add: assms(2))
  have "processing_ok q"
    unfolding assms(2) by (rule run_processing_ok [OF new_queue_processing_ok])
  then have b: "\<forall>r \<in> set (waiting q). \<not> terminal (status r)"
    and c: "\<forall>(k, r) \<in> set (processing q). \<not> terminal (status r)"
    by (auto simp: processing_ok_def)
  from a b c show ?thesis by blast
qed

theorem terminal_rows_have_completed_at_witness:
  "map d_request_id (collection restarted_run) = [''u'', ''v'']
   \<and> map d_status (collection restarted_run) = [''processing'', ''completed'']
   \<and> map d_retry_count (collection restarted_run) = [2, 0]
   \<and> map d_completed_at (collection restarted_run) = [None, Some 9]
   \<and> map terminal_row (collection restarted_run) = [False, True]
   \<and> waiting restarted_run = []"
proof -
  have s: "\<forall>d \<in> set crashed_store. d_id d \<noteq> None \<and> (terminal_row d \<longrightarrow> d_completed_at d \<noteq> None)"
    unfolding crashed_store_def by code_simp
  have e: "restarted_run =
     snd (run (new_queue ''B'' 1 10 crashed_store)
       [RecoverFromCrash (\<lambda>k. True),
        Enqueue ''v'' 7 True ''p'' ''chat'' ''c'' NORMAL 300,
        Dequeue 8 True, Complete ''v'' None 9 True])"
    by (simp add: restarted_run_def)
  have v: "map d_request_id (collection restarted_run) = [''u'', ''v'']"
    "map d_status (collection restarted_run) = [''processing'', ''completed'']"
    "map d_retry_count (collection restarted_run) = [2, 0]"
    "map d_completed_at (collection restarted_run) = [None, Some 9]"
    "map terminal_row (collection restarted_run) = [False, True]"
    "waiting restarted_run = []"
    unfolding restarted_run_def crashed_store_def by code_simp+
  from terminal_rows_have_completed_at [OF s e] v show ?thesis by blast
qed

end
